theory Spec2Isabelle
  imports Complex_Main "HOL-Library.Word" "HOL-Library.Log_Nat" "HOL-Library.Sublist"
begin

unbundle bit_operations_syntax

section \<open>The Binary class of binary.js\<close>

text \<open>
  The development embeds \<^verbatim>\<open>src/binary.js\<close>. A JavaScript number is an IEEE 754 double. The
  numbers this class computes are integers or infinities, so they are modelled by the type
  \<open>number\<close> below, and every addition and subtraction rounds its exact result to the nearest
  double, as the machine does. An argument of \<^verbatim>\<open>fromUnsigned\<close>/\<^verbatim>\<open>fromSigned\<close> is a
  rational, so that \<^verbatim>\<open>Number.isInteger\<close> has something to reject; past that check it is
  an integer.
\<close>

subsection \<open>Data model and errors\<close>

text \<open>The four \<^verbatim>\<open>throw new Error(...)\<close> sites, by the kind the specification gives them:
  "Can only create Binary from integers." is \<open>InvalidInput\<close>, "Bit mismatch" is
  \<open>WidthMismatch\<close>, "Need to extend to a larger number of bits" is \<open>InvalidWidth\<close>,
  "Not an instance of Binary" is \<open>NotABitVector\<close>.\<close>

datatype error = InvalidInput | WidthMismatch | InvalidWidth | NotABitVector

text \<open>\<^verbatim>\<open>class Binary { constructor(bits) { this.bits = bits; } }\<close>: the constructor
  stores the array as it is, whatever its elements.\<close>

record Binary =
  bits :: "int list"

text \<open>An argument received as \<^verbatim>\<open>other\<close>: an instance of the class, or anything else.\<close>

datatype jsvalue = Instance Binary | NotInstance

subsection \<open>JavaScript primitives used by the class\<close>

text \<open>The operators \<^verbatim>\<open>^\<close>, \<^verbatim>\<open>&\<close> and \<^verbatim>\<open>|\<close> convert both operands to signed
  32-bit integers (\<^verbatim>\<open>undefined\<close>, here \<open>None\<close>, converts to 0) and return a signed
  32-bit integer.\<close>

definition ToInt32 :: "int option \<Rightarrow> 32 word" where
  "ToInt32 v = (case v of None \<Rightarrow> 0 | Some x \<Rightarrow> word_of_int x)"

definition js_xor :: "int option \<Rightarrow> int option \<Rightarrow> int" where
  "js_xor a b = sint (ToInt32 a XOR ToInt32 b)"

definition js_and :: "int option \<Rightarrow> int option \<Rightarrow> int" where
  "js_and a b = sint (ToInt32 a AND ToInt32 b)"

definition js_or :: "int option \<Rightarrow> int option \<Rightarrow> int" where
  "js_or a b = sint (ToInt32 a OR ToInt32 b)"

text \<open>The values a number takes in this class: an integer, \<^verbatim>\<open>Infinity\<close>,
  \<^verbatim>\<open>-Infinity\<close> or \<^verbatim>\<open>NaN\<close>. (\<^verbatim>\<open>-0\<close> is not told apart from \<open>0\<close>; no operation
  of the class does.)\<close>

datatype number = Fin int | PosInf | NegInf | NaN

text \<open>Rounding an exact integer result to the nearest double, ties to the even
  significand. With \<open>2 ^ e \<le> \<bar>x\<bar> < 2 ^ (e + 1)\<close> (\<open>bitlen\<close> counts the binary digits, so
  \<open>e = bitlen \<bar>x\<bar> - 1\<close>), a double keeps the 53 leading bits: for
  \<open>e \<le> 52\<close> the integer is a double as it is; otherwise the last \<open>q = e - 52\<close> bits are
  rounded away. A result of magnitude \<open>2 ^ 1024\<close> or more is an infinity.\<close>

definition double_round :: "int \<Rightarrow> number" where
  "double_round x =
     (let a = \<bar>x\<bar>; e = bitlen a - 1 in
      if e \<le> 52 then Fin x
      else let q = nat (e - 52);
               m = a div 2 ^ q;
               r = a mod 2 ^ q;
               half = 2 ^ (q - 1);
               m' = (if half < r \<or> (r = half \<and> odd m) then m + 1 else m);
               y = m' * 2 ^ q
           in if 2 ^ 1024 \<le> y then (if 0 < x then PosInf else NegInf)
              else Fin (if 0 < x then y else - y))"

text \<open>An integer that is a double: the integers a JavaScript number can hold.\<close>

definition isDouble :: "int \<Rightarrow> bool" where
  "isDouble x = (double_round x = Fin x)"

text \<open>\<^verbatim>\<open>a + b\<close>, unary \<^verbatim>\<open>-a\<close>, \<^verbatim>\<open>a - b\<close> and \<^verbatim>\<open>a >= b\<close> on numbers.\<close>

fun js_add :: "number \<Rightarrow> number \<Rightarrow> number" where
  "js_add (Fin a) (Fin b) = double_round (a + b)"
| "js_add NaN _ = NaN"
| "js_add _ NaN = NaN"
| "js_add PosInf NegInf = NaN"
| "js_add NegInf PosInf = NaN"
| "js_add PosInf _ = PosInf"
| "js_add _ PosInf = PosInf"
| "js_add NegInf _ = NegInf"
| "js_add _ NegInf = NegInf"

fun js_neg :: "number \<Rightarrow> number" where
  "js_neg (Fin a) = Fin (- a)"
| "js_neg PosInf = NegInf"
| "js_neg NegInf = PosInf"
| "js_neg NaN = NaN"

definition js_sub :: "number \<Rightarrow> number \<Rightarrow> number" where
  "js_sub a b = js_add a (js_neg b)"

fun js_ge :: "number \<Rightarrow> number \<Rightarrow> bool" where
  "js_ge (Fin a) (Fin b) = (b \<le> a)"
| "js_ge NaN _ = False"
| "js_ge _ NaN = False"
| "js_ge PosInf _ = True"
| "js_ge _ NegInf = True"
| "js_ge _ PosInf = False"
| "js_ge NegInf _ = False"

text \<open>\<^verbatim>\<open>2**p\<close> for an integer \<open>p \<ge> 0\<close> (the class never raises 2 to a negative power):
  exact up to \<open>p = 1023\<close>, \<^verbatim>\<open>Infinity\<close> beyond.\<close>

definition js_pow2 :: "nat \<Rightarrow> number" where
  "js_pow2 p = (if p \<le> 1023 then Fin (2 ^ p) else PosInf)"

text \<open>\<^verbatim>\<open>Number.isInteger(n)\<close>.\<close>

definition isInteger :: "rat \<Rightarrow> bool" where
  "isInteger n = (of_int \<lfloor>n\<rfloor> = n)"

text \<open>\<^verbatim>\<open>Math.floor(Math.log2(n))\<close> at an integer \<open>n\<close>. For \<open>n < 0\<close> the source gets
  \<^verbatim>\<open>NaN\<close> and for \<open>n = 0\<close> it gets \<^verbatim>\<open>-Infinity\<close>; the only use of the value is the test
  \<^verbatim>\<open>nearestPowerOfTwo >= 0\<close>, false for both, so both are \<open>None\<close>.

  For \<open>n > 0\<close>, \<^verbatim>\<open>Math.log2(n)\<close> is the double nearest to the real \<open>log\<^sub>2 n\<close> (the
  language leaves the last bit of \<^verbatim>\<open>Math.log2\<close> to the implementation; the nearest double is
  what a correctly rounding one returns). Let \<open>k = \<lfloor>log\<^sub>2 n\<rfloor>\<close> and \<open>c = k + 1\<close>. The integer
  \<open>k\<close> is a double and \<open>k \<le> log\<^sub>2 n < c\<close>, so the rounded value lies between \<open>k\<close> and
  \<open>c\<close> and its floor is \<open>k\<close>, unless it is \<open>c\<close> itself: that is when \<open>log\<^sub>2 n\<close> lies above
  the midpoint \<open>c - 1 / M\<close> between \<open>c\<close> and the double just below \<open>c\<close>. With
  \<open>2 ^ E \<le> c < 2 ^ (E + 1)\<close>, the doubles just below \<open>c\<close> are \<open>2 ^ (E - 52)\<close> apart
  (\<open>2 ^ (E - 53)\<close> when \<open>c = 2 ^ E\<close>), and \<open>1 / M\<close> is half of that:
  \<open>M = 2 ^ (53 - E)\<close> (\<open>2 ^ (54 - E)\<close> when \<open>c = 2 ^ E\<close>). The test
  \<open>log\<^sub>2 n > c - 1 / M\<close> is written on integers: \<open>2 * n ^ M > 2 ^ (M * c)\<close>
  (lemma \<open>Math_floor_log2_real\<close> below).\<close>

definition Math_floor_log2 :: "int \<Rightarrow> int option" where
  "Math_floor_log2 n =
     (if 0 < n then
        (let k = bitlen n - 1;
             c = k + 1;
             E = bitlen c - 1;
             M = (if c = 2 ^ nat E then 2 ^ nat (54 - E) else 2 ^ nat (53 - E)) :: nat
         in Some (if 2 ^ (M * nat c) < 2 * n ^ M then c else k))
      else None)"

subsection \<open>Module helpers\<close>

text \<open>\<^verbatim>\<open>combineMap = (a1, a2, fn) => a1.map((x, i) => fn(x, a2[i]))\<close>. The callback of
  \<^verbatim>\<open>add\<close> assigns to a variable of the enclosing scope, so the callback takes and returns
  that state \<open>s\<close>; \<^verbatim>\<open>a2[i]\<close> beyond the end of \<^verbatim>\<open>a2\<close> is \<^verbatim>\<open>undefined\<close>
  (\<open>None\<close>).\<close>

fun combineMap ::
  "'a list \<Rightarrow> 'b list \<Rightarrow> ('a \<Rightarrow> 'b option \<Rightarrow> 's \<Rightarrow> 'c \<times> 's) \<Rightarrow> 's \<Rightarrow> 'c list \<times> 's" where
  "combineMap [] a2 fn s = ([], s)"
| "combineMap (x # a1) a2 fn s =
     (let (y, s1) = fn x (case a2 of [] \<Rightarrow> None | b # _ \<Rightarrow> Some b) s;
          (ys, s2) = combineMap a1 (tl a2) fn s1
      in (y # ys, s2))"

text \<open>\<^verbatim>\<open>reverse = a => [...a].reverse()\<close>.\<close>

definition reverse :: "'a list \<Rightarrow> 'a list" where
  "reverse a = rev a"

subsection \<open>Assertions\<close>

definition assertSameNumberOfBits :: "Binary \<Rightarrow> Binary \<Rightarrow> error + unit" where
  "assertSameNumberOfBits this other =
     (if length (bits other) \<noteq> length (bits this) then Inl WidthMismatch else Inr ())"

definition assertIsBinary :: "jsvalue \<Rightarrow> error + Binary" where
  "assertIsBinary other = (case other of NotInstance \<Rightarrow> Inl NotABitVector | Instance b \<Rightarrow> Inr b)"

subsection \<open>Conversion to numbers, width, bitwise operations, addition\<close>

text \<open>\<^verbatim>\<open>toNumber\<close>: \<^verbatim>\<open>forEach((bit, i) => ...)\<close> adds \<^verbatim>\<open>2**(length - i - 1)\<close> to
  \<^verbatim>\<open>total\<close>, which starts at 0, for each element that is \<^verbatim>\<open>=== 1\<close>; every addition
  rounds.\<close>

definition toNumber :: "Binary \<Rightarrow> number" where
  "toNumber this =
     fold (\<lambda>(i, bit) total.
             if bit = 1 then js_add total (js_pow2 (length (bits this) - i - 1)) else total)
       (enumerate 0 (bits this)) (Fin 0)"

text \<open>\<^verbatim>\<open>zeroExtend(nBits)\<close>, for an integer \<^verbatim>\<open>nBits\<close>; \<^verbatim>\<open>Array.from({length: k}, () => 0)\<close>
  is \<open>k\<close> zeros.\<close>

definition zeroExtend :: "Binary \<Rightarrow> int \<Rightarrow> error + Binary" where
  "zeroExtend this nBits =
     (if nBits \<le> int (length (bits this)) then Inl InvalidWidth
      else let numberExtraZeros = nBits - int (length (bits this));
               zeros = replicate (nat numberExtraZeros) 0
           in Inr \<lparr>bits = zeros @ bits this\<rparr>)"

definition zeroExtendToMatch :: "Binary \<Rightarrow> jsvalue \<Rightarrow> error + Binary" where
  "zeroExtendToMatch this other =
     (case assertIsBinary other of Inl e \<Rightarrow> Inl e
      | Inr b \<Rightarrow> zeroExtend this (int (length (bits b))))"

text \<open>The callback of \<^verbatim>\<open>add\<close>; the state is \<^verbatim>\<open>carryBit\<close>.\<close>

definition add_step :: "int \<Rightarrow> int option \<Rightarrow> int \<Rightarrow> int \<times> int" where
  "add_step a b carryBit =
     (let abSum = js_xor (Some a) b;
          abCarry = js_and (Some a) b;
          abSumPlusCarry = js_xor (Some abSum) (Some carryBit);
          abSumCarry = js_and (Some abSum) (Some carryBit)
      in (abSumPlusCarry, js_or (Some abCarry) (Some abSumCarry)))"

definition add :: "Binary \<Rightarrow> jsvalue \<Rightarrow> error + Binary" where
  "add this other =
     (case assertIsBinary other of Inl e \<Rightarrow> Inl e
      | Inr b \<Rightarrow>
         (case assertSameNumberOfBits this b of Inl e \<Rightarrow> Inl e
          | Inr _ \<Rightarrow>
             (let (newBits, carryBit) =
                    combineMap (reverse (bits this)) (reverse (bits b)) add_step 0
              in Inr \<lparr>bits = carryBit # reverse newBits\<rparr>)))"

definition and_Binary :: "Binary \<Rightarrow> jsvalue \<Rightarrow> error + Binary" where
  "and_Binary this other =
     (case assertIsBinary other of Inl e \<Rightarrow> Inl e
      | Inr b \<Rightarrow>
         (case assertSameNumberOfBits this b of Inl e \<Rightarrow> Inl e
          | Inr _ \<Rightarrow>
             Inr \<lparr>bits = fst (combineMap (bits this) (bits b)
                                (\<lambda>bit1 bit2 s. (js_and (Some bit1) bit2, s)) ())\<rparr>))"

definition or_Binary :: "Binary \<Rightarrow> jsvalue \<Rightarrow> error + Binary" where
  "or_Binary this other =
     (case assertIsBinary other of Inl e \<Rightarrow> Inl e
      | Inr b \<Rightarrow>
         (case assertSameNumberOfBits this b of Inl e \<Rightarrow> Inl e
          | Inr _ \<Rightarrow>
             Inr \<lparr>bits = fst (combineMap (bits this) (bits b)
                                (\<lambda>bit1 bit2 s. (js_or (Some bit1) bit2, s)) ())\<rparr>))"

definition xor_Binary :: "Binary \<Rightarrow> jsvalue \<Rightarrow> error + Binary" where
  "xor_Binary this other =
     (case assertIsBinary other of Inl e \<Rightarrow> Inl e
      | Inr b \<Rightarrow>
         (case assertSameNumberOfBits this b of Inl e \<Rightarrow> Inl e
          | Inr _ \<Rightarrow>
             Inr \<lparr>bits = fst (combineMap (bits this) (bits b)
                                (\<lambda>bit1 bit2 s. (js_xor (Some bit1) bit2, s)) ())\<rparr>))"

definition not_Binary :: "Binary \<Rightarrow> Binary" where
  "not_Binary this = \<lparr>bits = map (\<lambda>x. if x = 0 then 1 else 0) (bits this)\<rparr>"

text \<open>\<^verbatim>\<open>toSignedNumber\<close>. \<^verbatim>\<open>this.bits[0] === 0\<close> is false on an empty array;
  \<^verbatim>\<open>slice(1)\<close> drops the first element (and is empty on an empty array).\<close>

definition toSignedNumber :: "Binary \<Rightarrow> error + number" where
  "toSignedNumber this =
     (if (case bits this of [] \<Rightarrow> False | b # _ \<Rightarrow> b = 0) then Inr (toNumber this)
      else let minusOneBits = replicate (length (bits this)) 1;
               minusOne = \<lparr>bits = minusOneBits\<rparr>
           in (case add this (Instance minusOne) of Inl e \<Rightarrow> Inl e
               | Inr s \<Rightarrow>
                  (let positiveWithCarry = not_Binary s;
                       positiveNumber = \<lparr>bits = tl (bits positiveWithCarry)\<rparr>
                   in Inr (js_neg (toNumber positiveNumber)))))"

subsection \<open>Construction from numbers\<close>

text \<open>The \<^verbatim>\<open>while (nearestPowerOfTwo >= 0)\<close> loop of \<^verbatim>\<open>fromUnsigned\<close>;
  \<^verbatim>\<open>bits.push\<close> appends, and the subtraction rounds like any other.\<close>

function fromUnsigned_loop :: "int option \<Rightarrow> number \<Rightarrow> int list \<Rightarrow> int list" where
  "fromUnsigned_loop None numberInProgress bs = bs"
| "fromUnsigned_loop (Some nearestPowerOfTwo) numberInProgress bs =
     (if nearestPowerOfTwo \<ge> 0 then
        (if js_ge numberInProgress (js_pow2 (nat nearestPowerOfTwo))
         then fromUnsigned_loop (Some (nearestPowerOfTwo - 1))
                (js_sub numberInProgress (js_pow2 (nat nearestPowerOfTwo))) (bs @ [1])
         else fromUnsigned_loop (Some (nearestPowerOfTwo - 1)) numberInProgress (bs @ [0]))
      else bs)"
  by pat_completeness auto
termination
  by (relation "measure (\<lambda>(e, r, bs). case e of None \<Rightarrow> 0 | Some k \<Rightarrow> nat (k + 1))") auto

definition fromUnsigned :: "rat \<Rightarrow> error + Binary" where
  "fromUnsigned n =
     (if \<not> isInteger n then Inl InvalidInput
      else if n = 0 then Inr \<lparr>bits = [0]\<rparr>
      else Inr \<lparr>bits = fromUnsigned_loop (Math_floor_log2 \<lfloor>n\<rfloor>) (Fin \<lfloor>n\<rfloor>) []\<rparr>)"

definition fromSigned :: "rat \<Rightarrow> error + Binary" where
  "fromSigned n =
     (if \<not> isInteger n then Inl InvalidInput
      else if n = 0 then Inr \<lparr>bits = [0]\<rparr>
      else
       (case fromUnsigned \<bar>n\<bar> of Inl e \<Rightarrow> Inl e
        | Inr unsignedBinary \<Rightarrow>
           (let numberOfBits = int (length (bits unsignedBinary)) + 1 in
            (case zeroExtend unsignedBinary numberOfBits of Inl e \<Rightarrow> Inl e
             | Inr withZeroSignBit \<Rightarrow>
                (if n > 0 then Inr withZeroSignBit
                 else
                  (let flipped = not_Binary withZeroSignBit in
                   (case fromUnsigned 1 of Inl e \<Rightarrow> Inl e
                    | Inr one \<Rightarrow>
                       (case zeroExtend one numberOfBits of Inl e \<Rightarrow> Inl e
                        | Inr oneExt \<Rightarrow>
                           (case add flipped (Instance oneExt) of Inl e \<Rightarrow> Inl e
                            | Inr withAddedOne \<Rightarrow>
                               Inr \<lparr>bits = tl (bits withAddedOne)\<rparr>)))))))))"

section \<open>The same methods on a store of arrays and objects\<close>

text \<open>
  In JavaScript an array and a \<^verbatim>\<open>Binary\<close> are references: \<^verbatim>\<open>new Binary(bits)\<close> keeps the
  caller's array, two objects may share one array, and \<^verbatim>\<open>Array.prototype.reverse\<close> writes
  into the array it is called on. To say that a method leaves its receiver and its argument
  alone, the methods are given a second time over an explicit store: \<open>arrays\<close> holds the
  contents of every array ever allocated (an array's address is its position) and \<open>objects\<close>
  holds, for every \<^verbatim>\<open>Binary\<close> object, the address in its field \<^verbatim>\<open>bits\<close>. Allocation
  appends; a reference handed out by the store always points into it (\<open>wf_heap\<close>). The
  callbacks stay the pure ones of the first model, since none of them touches an array.
\<close>

record heap =
  arrays :: "int list list"
  objects :: "nat list"

text \<open>An argument received as \<^verbatim>\<open>other\<close>: a reference to a \<^verbatim>\<open>Binary\<close>, or anything else.\<close>

datatype jsref = Object nat | NotObject

text \<open>An array literal, \<^verbatim>\<open>Array.from\<close>, \<^verbatim>\<open>map\<close>, \<^verbatim>\<open>slice\<close> and the spread
  \<^verbatim>\<open>[...a]\<close> each allocate a new array.\<close>

definition new_array :: "int list \<Rightarrow> heap \<Rightarrow> nat \<times> heap" where
  "new_array xs h = (length (arrays h), h\<lparr>arrays := arrays h @ [xs]\<rparr>)"

text \<open>Reading an array. Every address the methods read was handed out by the store
  (the field of a well-formed object, or the result of an allocation just made).\<close>

definition array_at :: "heap \<Rightarrow> nat \<Rightarrow> int list" where
  "array_at h a = arrays h ! a"

text \<open>Writing into an existing array, as \<^verbatim>\<open>Array.prototype.reverse\<close> does.\<close>

definition set_array :: "nat \<Rightarrow> int list \<Rightarrow> heap \<Rightarrow> heap" where
  "set_array a xs h = h\<lparr>arrays := (arrays h)[a := xs]\<rparr>"

text \<open>\<^verbatim>\<open>new Binary(bits)\<close>: a new object whose field holds the reference it was given.\<close>

definition new_Binary :: "nat \<Rightarrow> heap \<Rightarrow> nat \<times> heap" where
  "new_Binary a h = (length (objects h), h\<lparr>objects := objects h @ [a]\<rparr>)"

text \<open>\<^verbatim>\<open>this.bits\<close> as a reference, and the contents it points to.\<close>

definition bits_ref :: "heap \<Rightarrow> nat \<Rightarrow> nat" where
  "bits_ref h obj = objects h ! obj"

definition bits_of :: "heap \<Rightarrow> nat \<Rightarrow> int list" where
  "bits_of h obj = array_at h (bits_ref h obj)"

definition wf_heap :: "heap \<Rightarrow> bool" where
  "wf_heap h = (\<forall>a \<in> set (objects h). a < length (arrays h))"

text \<open>\<^verbatim>\<open>reverse = a => [...a].reverse()\<close>: copy, then reverse the copy in place.\<close>

definition reverse_h :: "nat \<Rightarrow> heap \<Rightarrow> nat \<times> heap" where
  "reverse_h a h =
     (let (c, h1) = new_array (array_at h a) h
      in (c, set_array c (rev (array_at h1 c)) h1))"

text \<open>\<^verbatim>\<open>combineMap\<close>: \<^verbatim>\<open>a1.map\<close> reads both arrays and allocates the array of results.\<close>

definition combineMap_h ::
  "nat \<Rightarrow> nat \<Rightarrow> (int \<Rightarrow> int option \<Rightarrow> 's \<Rightarrow> int \<times> 's) \<Rightarrow> 's \<Rightarrow> heap \<Rightarrow> (nat \<times> 's) \<times> heap" where
  "combineMap_h a1 a2 fn s h =
     (let (ys, s') = combineMap (array_at h a1) (array_at h a2) fn s;
          (r, h') = new_array ys h
      in ((r, s'), h'))"

definition assertSameNumberOfBits_h :: "nat \<Rightarrow> nat \<Rightarrow> heap \<Rightarrow> error + unit" where
  "assertSameNumberOfBits_h this other h =
     (if length (bits_of h other) \<noteq> length (bits_of h this) then Inl WidthMismatch else Inr ())"

definition assertIsBinary_h :: "jsref \<Rightarrow> error + nat" where
  "assertIsBinary_h other = (case other of NotObject \<Rightarrow> Inl NotABitVector | Object b \<Rightarrow> Inr b)"

definition toNumber_h :: "nat \<Rightarrow> heap \<Rightarrow> number \<times> heap" where
  "toNumber_h this h = (toNumber \<lparr>bits = bits_of h this\<rparr>, h)"

definition zeroExtend_h :: "nat \<Rightarrow> int \<Rightarrow> heap \<Rightarrow> (error + nat) \<times> heap" where
  "zeroExtend_h this nBits h =
     (if nBits \<le> int (length (bits_of h this)) then (Inl InvalidWidth, h)
      else let numberExtraZeros = nBits - int (length (bits_of h this));
               (zeros, h1) = new_array (replicate (nat numberExtraZeros) 0) h;
               (arr, h2) = new_array (array_at h1 zeros @ bits_of h1 this) h1;
               (obj, h3) = new_Binary arr h2
           in (Inr obj, h3))"

definition zeroExtendToMatch_h :: "nat \<Rightarrow> jsref \<Rightarrow> heap \<Rightarrow> (error + nat) \<times> heap" where
  "zeroExtendToMatch_h this other h =
     (case assertIsBinary_h other of Inl e \<Rightarrow> (Inl e, h)
      | Inr b \<Rightarrow> zeroExtend_h this (int (length (bits_of h b))) h)"

definition add_h :: "nat \<Rightarrow> jsref \<Rightarrow> heap \<Rightarrow> (error + nat) \<times> heap" where
  "add_h this other h =
     (case assertIsBinary_h other of Inl e \<Rightarrow> (Inl e, h)
      | Inr b \<Rightarrow>
         (case assertSameNumberOfBits_h this b h of Inl e \<Rightarrow> (Inl e, h)
          | Inr _ \<Rightarrow>
             (let (r1, h1) = reverse_h (bits_ref h this) h;
                  (r2, h2) = reverse_h (bits_ref h1 b) h1;
                  ((newBits, carryBit), h3) = combineMap_h r1 r2 add_step 0 h2;
                  (r3, h4) = reverse_h newBits h3;
                  (arr, h5) = new_array (carryBit # array_at h4 r3) h4;
                  (obj, h6) = new_Binary arr h5
              in (Inr obj, h6))))"

text \<open>\<^verbatim>\<open>and\<close>, \<^verbatim>\<open>or\<close> and \<^verbatim>\<open>xor\<close> differ in the callback only.\<close>

definition bitwise_h ::
  "(int \<Rightarrow> int option \<Rightarrow> unit \<Rightarrow> int \<times> unit) \<Rightarrow> nat \<Rightarrow> jsref \<Rightarrow> heap \<Rightarrow> (error + nat) \<times> heap" where
  "bitwise_h fn this other h =
     (case assertIsBinary_h other of Inl e \<Rightarrow> (Inl e, h)
      | Inr b \<Rightarrow>
         (case assertSameNumberOfBits_h this b h of Inl e \<Rightarrow> (Inl e, h)
          | Inr _ \<Rightarrow>
             (let ((newBits, _), h1) = combineMap_h (bits_ref h this) (bits_ref h b) fn () h;
                  (obj, h2) = new_Binary newBits h1
              in (Inr obj, h2))))"

definition and_h :: "nat \<Rightarrow> jsref \<Rightarrow> heap \<Rightarrow> (error + nat) \<times> heap" where
  "and_h = bitwise_h (\<lambda>bit1 bit2 s. (js_and (Some bit1) bit2, s))"

definition or_h :: "nat \<Rightarrow> jsref \<Rightarrow> heap \<Rightarrow> (error + nat) \<times> heap" where
  "or_h = bitwise_h (\<lambda>bit1 bit2 s. (js_or (Some bit1) bit2, s))"

definition xor_h :: "nat \<Rightarrow> jsref \<Rightarrow> heap \<Rightarrow> (error + nat) \<times> heap" where
  "xor_h = bitwise_h (\<lambda>bit1 bit2 s. (js_xor (Some bit1) bit2, s))"

definition not_h :: "nat \<Rightarrow> heap \<Rightarrow> nat \<times> heap" where
  "not_h this h =
     (let (newBits, h1) = new_array (map (\<lambda>x. if x = 0 then 1 else 0) (bits_of h this)) h
      in new_Binary newBits h1)"

definition toSignedNumber_h :: "nat \<Rightarrow> heap \<Rightarrow> (error + number) \<times> heap" where
  "toSignedNumber_h this h =
     (if (case bits_of h this of [] \<Rightarrow> False | b # _ \<Rightarrow> b = 0)
      then (let (n, h1) = toNumber_h this h in (Inr n, h1))
      else let (minusOneBits, h1) = new_array (replicate (length (bits_of h this)) 1) h;
               (minusOne, h2) = new_Binary minusOneBits h1
           in (case add_h this (Object minusOne) h2 of
                 (Inl e, h3) \<Rightarrow> (Inl e, h3)
               | (Inr s, h3) \<Rightarrow>
                  (let (positiveWithCarry, h4) = not_h s h3;
                       (sliced, h5) = new_array (tl (bits_of h4 positiveWithCarry)) h4;
                       (positiveNumber, h6) = new_Binary sliced h5;
                       (n, h7) = toNumber_h positiveNumber h6
                   in (Inr (js_neg n), h7))))"

text \<open>\<open>frame h h'\<close>: every array and every object of \<open>h\<close> is in \<open>h'\<close> with the contents it
  had; \<open>returns_new h r\<close>: the object returned in \<open>r\<close>, if any, and its array did not exist in
  \<open>h\<close>.\<close>

definition frame :: "heap \<Rightarrow> heap \<Rightarrow> bool" where
  "frame h h' = (prefix (arrays h) (arrays h') \<and> prefix (objects h) (objects h'))"

definition returns_new :: "heap \<Rightarrow> (error + nat) \<times> heap \<Rightarrow> bool" where
  "returns_new h r =
     (case fst r of Inl e \<Rightarrow> True
      | Inr obj \<Rightarrow> length (objects h) \<le> obj \<and> obj < length (objects (snd r)) \<and>
                  length (arrays h) \<le> bits_ref (snd r) obj)"

text \<open>A store with two objects, used to run the methods on.\<close>

definition example_heap :: heap where
  "example_heap = \<lparr>arrays = [[1, 0, 1, 1], [0, 1, 0, 1]], objects = [0, 1]\<rparr>"

section \<open>Notions used to state the properties\<close>

text \<open>The invariant of the data model: every element is exactly 0 or 1.\<close>

definition bits01 :: "int list \<Rightarrow> bool" where
  "bits01 bs = (set bs \<subseteq> {0, 1})"

text \<open>The unsigned value of a bit list, most significant element first, and of a bit
  list, least significant element first (the order in which \<^verbatim>\<open>add\<close> walks them).\<close>

fun msbValue :: "int list \<Rightarrow> int" where
  "msbValue [] = 0"
| "msbValue (b # bs) = (if b = 1 then 2 ^ length bs else 0) + msbValue bs"

fun lsbValue :: "int list \<Rightarrow> int" where
  "lsbValue [] = 0"
| "lsbValue (b # bs) = b + 2 * lsbValue bs"

text \<open>One step of the \<^verbatim>\<open>forEach\<close> of \<^verbatim>\<open>toNumber\<close>, for a vector of width \<open>L\<close>.\<close>

definition toNumber_step :: "nat \<Rightarrow> nat \<times> int \<Rightarrow> number \<Rightarrow> number" where
  "toNumber_step L = (\<lambda>(i, bit) total. if bit = 1 then js_add total (js_pow2 (L - i - 1)) else total)"

section \<open>Properties\<close>

subsection \<open>Rounding to the nearest double\<close>

lemma bitlen_bounds_abs:
  assumes "x \<noteq> 0"
  shows "0 \<le> bitlen \<bar>x\<bar> - 1" "2 ^ nat (bitlen \<bar>x\<bar> - 1) \<le> \<bar>x\<bar>"
    "\<bar>x\<bar> < 2 ^ nat (bitlen \<bar>x\<bar> - 1 + 1)"
proof -
  have pos: "0 < \<bar>x\<bar>" using assms by simp
  then have "bitlen \<bar>x\<bar> \<noteq> 0" by (simp add: bitlen_eq_zero_iff)
  with bitlen_nonneg [of "\<bar>x\<bar>"] show "0 \<le> bitlen \<bar>x\<bar> - 1" by simp
  from bitlen_bounds [OF pos] show "2 ^ nat (bitlen \<bar>x\<bar> - 1) \<le> \<bar>x\<bar>"
    "\<bar>x\<bar> < 2 ^ nat (bitlen \<bar>x\<bar> - 1 + 1)"
    by simp_all
qed

lemma double_round_zero: "double_round 0 = Fin 0"
  by (simp add: double_round_def)

lemma double_round_exact:
  assumes dvd: "2 ^ q dvd x" and lt: "\<bar>x\<bar> < 2 ^ (q + 53)" and fin: "\<bar>x\<bar> < 2 ^ 1024"
  shows "double_round x = Fin x"
proof (cases "x = 0")
  case True
  then show ?thesis by (simp add: double_round_zero)
next
  case False
  let ?a = "\<bar>x\<bar>"
  let ?e = "bitlen ?a - 1"
  note b = bitlen_bounds_abs [OF False]
  show ?thesis
  proof (cases "?e \<le> 52")
    case True
    then show ?thesis by (simp add: double_round_def Let_def)
  next
    case big: False
    let ?q = "nat (?e - 52)"
    have "(2::int) ^ nat ?e < 2 ^ (q + 53)"
      using b(2) lt by linarith
    then have "nat ?e < q + 53" by simp
    then have qle: "?q \<le> q" using big by linarith
    have "(2::int) ^ ?q dvd 2 ^ q"
      using qle by (rule le_imp_power_dvd)
    then have "2 ^ ?q dvd x" using dvd by (rule dvd_trans)
    then have d: "2 ^ ?q dvd ?a" by simp
    then have r: "?a mod 2 ^ ?q = 0" by simp
    have m: "?a div 2 ^ ?q * 2 ^ ?q = ?a"
      using d by simp
    have h1: "\<not> (2::int) ^ (?q - 1) < 0" by simp
    have h2: "((0::int) = 2 ^ (?q - 1)) = False" by simp
    have nf: "\<not> 2 ^ 1024 \<le> ?a" using fin by linarith
    have "double_round x = Fin (if 0 < x then ?a else - ?a)"
      unfolding double_round_def Let_def
      by (simp only: big if_False r h1 h2 m nf simp_thms)
    also have "\<dots> = Fin x" by simp
    finally show ?thesis .
  qed
qed

lemma double_round_small: "\<bar>x\<bar> < 2 ^ 53 \<Longrightarrow> double_round x = Fin x"
  using double_round_exact [of 0 x] by simp

lemma isDouble_cases:
  assumes "isDouble x"
  shows "\<exists>q. 2 ^ q dvd x \<and> \<bar>x\<bar> < 2 ^ (q + 53) \<and> \<bar>x\<bar> < 2 ^ 1024"
proof (cases "x = 0")
  case True
  then show ?thesis by simp
next
  case False
  let ?a = "\<bar>x\<bar>"
  let ?e = "bitlen ?a - 1"
  note b = bitlen_bounds_abs [OF False]
  show ?thesis
  proof (cases "?e \<le> 52")
    case True
    then have "nat (?e + 1) \<le> 53" by simp
    then have "(2::int) ^ nat (?e + 1) \<le> 2 ^ 53"
      by (rule power_increasing) simp
    with b(3) have "?a < 2 ^ 53" by linarith
    moreover have "(2::int) ^ 53 < 2 ^ 1024" by simp
    ultimately have "2 ^ 0 dvd x \<and> ?a < 2 ^ (0 + 53) \<and> ?a < 2 ^ 1024"
      by simp
    then show ?thesis by blast
  next
    case big: False
    let ?q = "nat (?e - 52)"
    define m' where "m' = (if 2 ^ (?q - 1) < ?a mod 2 ^ ?q \<or>
        (?a mod 2 ^ ?q = 2 ^ (?q - 1) \<and> odd (?a div 2 ^ ?q))
      then ?a div 2 ^ ?q + 1 else ?a div 2 ^ ?q)"
    from assms big have dr: "(if 2 ^ 1024 \<le> m' * 2 ^ ?q then (if 0 < x then PosInf else NegInf)
        else Fin (if 0 < x then m' * 2 ^ ?q else - (m' * 2 ^ ?q))) = Fin x"
      unfolding isDouble_def double_round_def Let_def m'_def by simp
    then have fin: "\<not> 2 ^ 1024 \<le> m' * 2 ^ ?q"
      by (auto split: if_splits)
    with dr have "(if 0 < x then m' * 2 ^ ?q else - (m' * 2 ^ ?q)) = x"
      by simp
    then have a: "?a = \<bar>m' * 2 ^ ?q\<bar>"
      by (auto split: if_splits)
    have "0 \<le> m'"
      unfolding m'_def by (simp add: pos_imp_zdiv_nonneg_iff)
    with a have a': "?a = m' * 2 ^ ?q" by simp
    have "2 ^ ?q dvd ?a" by (subst a') (rule dvd_triv_right)
    then have d: "2 ^ ?q dvd x" by (simp only: dvd_abs_iff)
    have "nat (?e + 1) = ?q + 53" using big by linarith
    with b(3) have "?a < 2 ^ (?q + 53)" by simp
    moreover have "?a < 2 ^ 1024" using fin a' by linarith
    ultimately show ?thesis using d by blast
  qed
qed

lemma isDouble_small: "\<bar>x\<bar> < 2 ^ 53 \<Longrightarrow> isDouble x"
  by (simp add: isDouble_def double_round_small)

subsection \<open>The value read by toNumber\<close>

lemma toNumber_alt: "toNumber v = fold (toNumber_step (length (bits v))) (enumerate 0 (bits v)) (Fin 0)"
  by (simp add: toNumber_def toNumber_step_def)

lemma msbValue_append: "msbValue (xs @ ys) = msbValue xs * 2 ^ length ys + msbValue ys"
  by (induction xs) (auto simp: power_add algebra_simps)

lemma msbValue_replicate0: "msbValue (replicate n 0) = 0"
  by (induction n) auto

lemma msbValue_bounds: "bits01 bs \<Longrightarrow> 0 \<le> msbValue bs \<and> msbValue bs < 2 ^ length bs"
  by (induction bs) (auto simp: bits01_def)

lemma dvd_small_zero:
  fixes r :: int
  assumes "2 ^ n dvd r" "0 \<le> r" "r < 2 ^ n"
  shows "r = 0"
proof (rule ccontr)
  assume "r \<noteq> 0"
  with assms(2) have "0 < r" by simp
  from zdvd_imp_le [OF assms(1) this] assms(3) show False by simp
qed

lemma fold_toNumber_step_exact:
  assumes "L = k + length bs + s" "bits01 bs" "0 \<le> t" "2 ^ (length bs + s) dvd t"
    and "2 ^ q dvd t + msbValue bs * 2 ^ s" "t + msbValue bs * 2 ^ s < 2 ^ (q + 53)"
    and "t + msbValue bs * 2 ^ s < 2 ^ 1024"
  shows "fold (toNumber_step L) (enumerate k bs) (Fin t) = Fin (t + msbValue bs * 2 ^ s)"
  using assms
proof (induction bs arbitrary: k t)
  case Nil
  then show ?case by simp
next
  case (Cons b bs)
  let ?n = "length bs"
  let ?V = "t + msbValue (b # bs) * 2 ^ s"
  let ?rho = "msbValue bs * 2 ^ s"
  have b01: "b = 0 \<or> b = 1" and bs01: "bits01 bs"
    using Cons.prems(2) by (auto simp: bits01_def)
  have rho: "0 \<le> ?rho" "?rho < 2 ^ (?n + s)"
    using msbValue_bounds [OF bs01] by (simp_all add: power_add)
  have L: "L = Suc k + ?n + s" "L - Suc k = ?n + s"
    using Cons.prems(1) by simp_all
  have dvd_t: "2 ^ (?n + s) dvd t"
  proof -
    have "(2::int) ^ (?n + s) dvd 2 ^ (length (b # bs) + s)"
      by (rule le_imp_power_dvd) simp
    then show ?thesis using Cons.prems(4) by (rule dvd_trans)
  qed
  from b01 show ?case
  proof
    assume b: "b = 0"
    then have V: "?V = t + ?rho" by simp
    have "toNumber_step L (k, b) (Fin t) = Fin t"
      using b by (simp add: toNumber_step_def)
    then have "fold (toNumber_step L) (enumerate k (b # bs)) (Fin t)
        = fold (toNumber_step L) (enumerate (Suc k) bs) (Fin t)"
      by simp
    also have "\<dots> = Fin (t + ?rho)"
      using Cons.prems(5-7) unfolding V
      by (intro Cons.IH [OF L(1) bs01 Cons.prems(3) dvd_t])
    finally show ?thesis using V by simp
  next
    assume b: "b = 1"
    let ?t' = "t + 2 ^ (?n + s)"
    have V: "?V = ?t' + ?rho"
      using b by (simp add: power_add algebra_simps)
    have Vq: "2 ^ q dvd ?t' + ?rho" "?t' + ?rho < 2 ^ (q + 53)" "?t' + ?rho < 2 ^ 1024"
      using Cons.prems(5-7) unfolding V by simp_all
    have "(2::int) ^ (?n + s) \<le> ?t' + ?rho"
      using rho(1) Cons.prems(3) by simp
    with Vq(3) have "(2::int) ^ (?n + s) < 2 ^ 1024" by linarith
    then have "?n + s < 1024"
      by (rule power_less_imp_less_exp [rotated]) simp
    then have pw: "js_pow2 (?n + s) = Fin (2 ^ (?n + s))"
      by (simp add: js_pow2_def)
    have dvd_t': "2 ^ (?n + s) dvd ?t'"
      using dvd_t by simp
    have t'q: "2 ^ q dvd ?t'"
    proof (cases "q \<le> ?n + s")
      case True
      then have "(2::int) ^ q dvd 2 ^ (?n + s)" by (rule le_imp_power_dvd)
      then show ?thesis using dvd_t' by (rule dvd_trans)
    next
      case False
      then have "(2::int) ^ (?n + s) dvd 2 ^ q"
        by (intro le_imp_power_dvd) simp
      then have "2 ^ (?n + s) dvd ?t' + ?rho"
        using Vq(1) by (rule dvd_trans)
      with dvd_t' have "2 ^ (?n + s) dvd ?rho"
        by (simp only: dvd_add_right_iff)
      from dvd_small_zero [OF this rho] have "?rho = 0" .
      with Vq(1) show ?thesis by simp
    qed
    have t'pos: "0 \<le> ?t'" using Cons.prems(3) by simp
    have "\<bar>?t'\<bar> < 2 ^ (q + 53)" "\<bar>?t'\<bar> < 2 ^ 1024"
      using Vq(2,3) rho(1) t'pos by linarith+
    from double_round_exact [OF t'q this] have rd: "double_round ?t' = Fin ?t'" .
    have "toNumber_step L (k, b) (Fin t) = Fin ?t'"
      using b by (simp add: toNumber_step_def L(2) pw rd)
    then have "fold (toNumber_step L) (enumerate k (b # bs)) (Fin t)
        = fold (toNumber_step L) (enumerate (Suc k) bs) (Fin ?t')"
      by simp
    also have "\<dots> = Fin (?t' + ?rho)"
      by (rule Cons.IH [OF L(1) bs01 t'pos dvd_t' Vq])
    finally show ?thesis using V by simp
  qed
qed

lemma toNumber_exact:
  assumes "bits01 bs" "2 ^ q dvd msbValue bs" "msbValue bs < 2 ^ (q + 53)" "msbValue bs < 2 ^ 1024"
  shows "toNumber \<lparr>bits = bs\<rparr> = Fin (msbValue bs)"
  using fold_toNumber_step_exact [of "length bs" 0 bs 0 0 q] assms
  by (simp add: toNumber_alt)

lemma toNumber_53:
  assumes "bits01 bs" "length bs \<le> 53"
  shows "toNumber \<lparr>bits = bs\<rparr> = Fin (msbValue bs)"
proof -
  have "(2::int) ^ length bs \<le> 2 ^ 53"
    using assms(2) by (intro power_increasing) simp_all
  with msbValue_bounds [OF assms(1)] have lt: "msbValue bs < 2 ^ 53" by linarith
  moreover have "(2::int) ^ 53 < 2 ^ 1024" by simp
  ultimately have "msbValue bs < 2 ^ 1024" by linarith
  with toNumber_exact [OF assms(1), of 0] lt show ?thesis by simp
qed

lemma toNumber_54:
  assumes "bits01 bs" "length bs \<le> 54"
  shows "toNumber \<lparr>bits = bs\<rparr> = double_round (msbValue bs)"
proof (cases "length bs \<le> 53")
  case True
  have "(2::int) ^ length bs \<le> 2 ^ 53"
    using True by (intro power_increasing) simp_all
  with msbValue_bounds [OF assms(1)] have "\<bar>msbValue bs\<bar> < 2 ^ 53" by linarith
  then show ?thesis
    using toNumber_53 [OF assms(1) True] by (simp add: double_round_small)
next
  case False
  with assms(2) have len: "length bs = 54" by simp
  then obtain cs b where bs: "bs = cs @ [b]" and lcs: "length cs = 53"
    by (cases bs rule: rev_cases) auto
  have cs01: "bits01 cs" and b01: "b = 0 \<or> b = 1"
    using assms(1) unfolding bs by (auto simp: bits01_def)
  have cb: "0 \<le> msbValue cs" "msbValue cs < 2 ^ 53"
    using msbValue_bounds [OF cs01] lcs by simp_all
  have big: "(2::int) ^ 54 < 2 ^ 1024" by simp
  have pre: "fold (toNumber_step 54) (enumerate 0 cs) (Fin 0) = Fin (0 + msbValue cs * 2 ^ 1)"
    using cb big by (intro fold_toNumber_step_exact [where q = 1]) (simp_all add: lcs cs01)
  have ex: "double_round (msbValue cs * 2) = Fin (msbValue cs * 2)"
    using cb big by (intro double_round_exact [where q = 1]) simp_all
  have "toNumber \<lparr>bits = bs\<rparr>
      = toNumber_step 54 (53, b) (fold (toNumber_step 54) (enumerate 0 cs) (Fin 0))"
    by (simp add: toNumber_alt bs lcs enumerate_append_eq)
  also have "\<dots> = double_round (msbValue bs)"
    using b01 unfolding pre bs
    by (auto simp: toNumber_step_def js_pow2_def msbValue_append ex)
  finally show ?thesis .
qed

lemma fold_toNumber_step_zeros:
  "fold (toNumber_step L) (enumerate j (replicate k 0)) t = t"
  by (induction k arbitrary: j) (simp_all add: toNumber_step_def)

lemma fold_toNumber_step_shift:
  "fold (toNumber_step (k + L)) (enumerate (k + j) bs) t = fold (toNumber_step L) (enumerate j bs) t"
proof (induction bs arbitrary: j t)
  case Nil
  then show ?case by simp
next
  case (Cons b bs)
  have "k + L - (k + j) - 1 = L - j - 1" by simp
  then have "toNumber_step (k + L) (k + j, b) t = toNumber_step L (j, b) t"
    by (simp add: toNumber_step_def)
  with Cons.IH [of "Suc j"] show ?case by simp
qed

lemma toNumber_zeros_append:
  "toNumber \<lparr>bits = replicate k 0 @ bs\<rparr> = toNumber \<lparr>bits = bs\<rparr>"
  using fold_toNumber_step_shift [of k "length bs" 0 bs "Fin 0"]
  by (simp add: toNumber_alt enumerate_append_eq fold_toNumber_step_zeros)

subsection \<open>The floor of the rounded logarithm\<close>

lemma bitlen_eqI:
  assumes "2 ^ k \<le> x" "x < 2 ^ Suc k"
  shows "bitlen x = int k + 1"
proof -
  have pos: "0 < x"
    using assms(1) by (rule less_le_trans [rotated]) simp
  note b = bitlen_bounds [OF pos]
  have nz: "bitlen x \<noteq> 0" using pos by (simp add: bitlen_eq_zero_iff)
  with bitlen_nonneg [of x] have ge: "1 \<le> bitlen x" by simp
  have "(2::int) ^ nat (bitlen x - 1) < 2 ^ Suc k"
    using b assms(2) by linarith
  then have "nat (bitlen x - 1) < Suc k"
    by (rule power_less_imp_less_exp [rotated]) simp
  moreover have "(2::int) ^ k < 2 ^ nat (bitlen x)"
    using b assms(1) by linarith
  then have "k < nat (bitlen x)"
    by (rule power_less_imp_less_exp [rotated]) simp
  ultimately show ?thesis using ge by linarith
qed

lemma Math_floor_log2_unfold:
  assumes "0 < n" "bitlen n = c" "bitlen c - 1 = E"
    and "M = (if c = 2 ^ nat E then 2 ^ nat (54 - E) else 2 ^ nat (53 - E))"
  shows "Math_floor_log2 n = Some (if 2 ^ (M * nat c) < 2 * n ^ M then c else c - 1)"
proof -
  have k: "bitlen n - 1 + 1 = c" "c - 1 + 1 = c"
    using assms(2) by simp_all
  show ?thesis
    unfolding Math_floor_log2_def Let_def
    by (simp only: assms(1) if_True k assms(2) assms(3) assms(4) [symmetric])
qed

lemma Math_floor_log2_range:
  assumes "0 < n"
  shows "\<exists>e. Math_floor_log2 n = Some e \<and> (e = bitlen n - 1 \<or> e = bitlen n)"
  using Math_floor_log2_unfold [OF assms refl refl refl] by auto

lemma Math_floor_log2_bounds:
  assumes "0 < n" "Math_floor_log2 n = Some e"
  shows "0 \<le> e" "n < 2 ^ nat (e + 1)"
proof -
  from Math_floor_log2_range [OF assms(1)] assms(2)
  have e: "e = bitlen n - 1 \<or> e = bitlen n" by simp
  have nz: "bitlen n \<noteq> 0" using assms(1) by (simp add: bitlen_eq_zero_iff)
  with bitlen_nonneg [of n] have ge: "1 \<le> bitlen n" by simp
  with e show "0 \<le> e" by auto
  have "nat (bitlen n) \<le> nat (e + 1)" using e ge by auto
  then have "(2::int) ^ nat (bitlen n) \<le> 2 ^ nat (e + 1)"
    by (rule power_increasing) simp
  with bitlen_bounds [OF assms(1)] show "n < 2 ^ nat (e + 1)" by linarith
qed

lemma power_one_minus_le_half:
  fixes x :: real
  assumes "0 \<le> x" "x \<le> 1" "1 \<le> real M * x"
  shows "2 * (1 - x) ^ M \<le> 1"
proof -
  have "1 + real M * x \<le> (1 + x) ^ M"
    using assms(1) by (intro Bernoulli_inequality) simp
  with assms(3) have two: "2 \<le> (1 + x) ^ M" by linarith
  have "(1 - x) ^ M * (1 + x) ^ M = ((1 - x) * (1 + x)) ^ M"
    by (simp add: power_mult_distrib)
  also have "\<dots> \<le> 1"
  proof (rule power_le_one)
    show "0 \<le> (1 - x) * (1 + x)" using assms(1,2) by simp
    have "(1 - x) * (1 + x) = 1 - x * x" by (simp add: algebra_simps)
    also have "\<dots> \<le> 1" using assms(1) by simp
    finally show "(1 - x) * (1 + x) \<le> 1" .
  qed
  finally have prod: "(1 - x) ^ M * (1 + x) ^ M \<le> 1" .
  have nn: "0 \<le> (1 - x) ^ M" using assms(2) by simp
  have "(1 - x) ^ M * 2 \<le> (1 - x) ^ M * (1 + x) ^ M"
    using two nn by (rule mult_left_mono)
  with prod show ?thesis by linarith
qed

lemma power_one_minus_gt:
  fixes x :: real
  assumes "0 < x" "x < 1"
  shows "1 - real (Suc (Suc m)) * x < (1 - x) ^ Suc (Suc m)"
proof (induction m)
  case 0
  have "(1 - x) ^ Suc (Suc 0) = 1 - 2 * x + x * x"
    by (simp add: algebra_simps)
  moreover have "0 < x * x" using assms(1) by simp
  ultimately show ?case by simp
next
  case (Suc m)
  let ?k = "Suc (Suc m)"
  have "(1 - real ?k * x) * (1 - x) < (1 - x) ^ ?k * (1 - x)"
    using Suc.IH assms(2) by (intro mult_strict_right_mono) simp_all
  moreover have "(1 - real ?k * x) * (1 - x) = 1 - real (Suc ?k) * x + real ?k * (x * x)"
    by (simp add: algebra_simps)
  moreover have "0 \<le> real ?k * (x * x)" by simp
  ultimately have "1 - real (Suc ?k) * x < (1 - x) ^ ?k * (1 - x)" by linarith
  then show ?case by (simp add: mult.commute)
qed

lemma int_power_vs_real:
  fixes n :: int
  assumes c: "n = 2 ^ c - d"
  shows "real_of_int (n ^ M) = 2 ^ (M * c) * (1 - real_of_int d / 2 ^ c) ^ M"
proof -
  have "real_of_int n = 2 ^ c * (1 - real_of_int d / 2 ^ c)"
    by (simp add: c algebra_simps)
  then have "real_of_int (n ^ M) = (2 ^ c * (1 - real_of_int d / 2 ^ c)) ^ M"
    by simp
  also have "\<dots> = (2 ^ c) ^ M * (1 - real_of_int d / 2 ^ c) ^ M"
    by (rule power_mult_distrib)
  also have "((2::real) ^ c) ^ M = 2 ^ (M * c)"
    by (simp add: power_mult [symmetric] mult.commute)
  finally show ?thesis .
qed

lemma no_round_up:
  fixes n :: int
  assumes "0 < n" "n < 2 ^ c" "2 ^ c \<le> M"
  shows "\<not> 2 ^ (M * c) < 2 * n ^ M"
proof -
  define d where "d = 2 ^ c - n"
  have d: "1 \<le> d" "d \<le> 2 ^ c" "n = 2 ^ c - d"
    using assms(1,2) by (simp_all add: d_def)
  let ?x = "real_of_int d / 2 ^ c"
  have x: "0 \<le> ?x" "?x \<le> 1"
    using d(1,2) by (simp_all add: divide_le_eq)
  have "(2::real) ^ c \<le> real M"
    using assms(3) by (metis of_nat_le_iff of_nat_numeral of_nat_power)
  also have "\<dots> \<le> real M * real_of_int d"
    using d(1) by (simp add: mult_le_cancel_left1)
  finally have "1 \<le> real M * ?x"
    by (simp add: le_divide_eq)
  from power_one_minus_le_half [OF x this]
  have "2 * (1 - ?x) ^ M \<le> 1" .
  then have "2 ^ (M * c) * (2 * (1 - ?x) ^ M) \<le> (2::real) ^ (M * c) * 1"
    by (intro mult_left_mono) simp_all
  moreover have "2 * real_of_int (n ^ M) = 2 ^ (M * c) * (2 * (1 - ?x) ^ M)"
    unfolding int_power_vs_real [OF d(3)] by (simp only: mult.left_commute)
  ultimately have "2 * real_of_int (n ^ M) \<le> 2 ^ (M * c)"
    by simp
  moreover have "real_of_int (2 * n ^ M) = 2 * real_of_int (n ^ M)"
    "real_of_int (2 ^ (M * c)) = 2 ^ (M * c)"
    by simp_all
  ultimately have "real_of_int (2 * n ^ M) \<le> real_of_int (2 ^ (M * c))"
    by (simp only:)
  then have "2 * n ^ M \<le> 2 ^ (M * c)"
    by (simp only: of_int_le_iff)
  then show ?thesis by simp
qed

lemma Math_floor_log2_small:
  assumes "0 < n" "n < 2 ^ 48"
  shows "Math_floor_log2 n = Some (bitlen n - 1)"
proof -
  define c where "c = bitlen n"
  define E where "E = bitlen c - 1"
  define M :: nat where "M = (if c = 2 ^ nat E then 2 ^ nat (54 - E) else 2 ^ nat (53 - E))"
  have nz: "bitlen n \<noteq> 0" using assms(1) by (simp add: bitlen_eq_zero_iff)
  with bitlen_nonneg [of n] have c1: "1 \<le> c" by (simp add: c_def)
  note b = bitlen_bounds [OF assms(1)]
  have "(2::int) ^ nat (c - 1) < 2 ^ 48"
    using b assms(2) unfolding c_def by linarith
  then have "nat (c - 1) < 48"
    by (rule power_less_imp_less_exp [rotated]) simp
  then have c48: "c \<le> 48" by linarith
  have cpos: "0 < c" using c1 by simp
  note bc = bitlen_bounds [OF cpos]
  have "(2::int) ^ nat (bitlen c - 1) < 2 ^ 6"
    using bc c48 by simp
  then have "nat (bitlen c - 1) < 6"
    by (rule power_less_imp_less_exp [rotated]) simp
  then have E5: "E \<le> 5" unfolding E_def by linarith
  have "48 \<le> nat (53 - E)" "48 \<le> nat (54 - E)"
    using E5 by simp_all
  then have "(2::nat) ^ 48 \<le> 2 ^ nat (53 - E)" "(2::nat) ^ 48 \<le> 2 ^ nat (54 - E)"
    by (simp_all only: power_increasing_iff one_less_numeral_iff semiring_norm)
  then have M48: "(2::nat) ^ 48 \<le> M"
    unfolding M_def by (simp only: split: if_splits) auto
  have "(2::nat) ^ nat c \<le> 2 ^ 48"
    using c48 by (intro power_increasing) simp_all
  with M48 have M: "2 ^ nat c \<le> M" by linarith
  have lt: "n < 2 ^ nat c" using b by (simp add: c_def)
  from no_round_up [OF assms(1) lt M]
  have "\<not> 2 ^ (M * nat c) < 2 * n ^ M" .
  with Math_floor_log2_unfold [OF assms(1) c_def [symmetric] E_def [symmetric] M_def]
  show ?thesis by (simp only: if_False c_def)
qed

lemma round_up:
  fixes n :: int
  assumes n: "n = 2 ^ c - 1" and M: "2 * M \<le> 2 ^ c" "2 \<le> M"
  shows "2 ^ (M * c) < 2 * n ^ M"
proof -
  let ?x = "real_of_int 1 / 2 ^ c"
  have x: "0 < ?x" by simp
  have "(2::nat) ^ 0 < 2 ^ c"
    using M by (cases c) auto
  then have "(1::real) < 2 ^ c"
    by (metis of_nat_1 of_nat_less_iff of_nat_numeral of_nat_power power_0)
  then have x1: "?x < 1" by simp
  obtain m where m: "M = Suc (Suc m)"
    using M(2) by (metis Suc_le_D numeral_2_eq_2 Suc_le_mono)
  have "real (2 * M) \<le> real (2 ^ c)"
    using M(1) by (simp only: of_nat_le_iff)
  then have "2 * real M \<le> 2 ^ c" by simp
  then have "real M * ?x \<le> 1 / 2"
    by (simp add: divide_le_eq)
  moreover have "1 - real M * ?x < (1 - ?x) ^ M"
    unfolding m by (rule power_one_minus_gt [OF x x1])
  ultimately have half: "1 / 2 < (1 - ?x) ^ M" by linarith
  have "(2::real) ^ (M * c) * (1 / 2) < 2 ^ (M * c) * (1 - ?x) ^ M"
    using half by (intro mult_strict_left_mono) simp_all
  also have "\<dots> = real_of_int (n ^ M)"
    by (rule int_power_vs_real [OF n, symmetric])
  finally have "(2::real) ^ (M * c) < 2 * real_of_int (n ^ M)" by simp
  moreover have "real_of_int (2 * n ^ M) = 2 * real_of_int (n ^ M)"
    "real_of_int (2 ^ (M * c)) = 2 ^ (M * c)"
    by simp_all
  ultimately have "real_of_int (2 ^ (M * c)) < real_of_int (2 * n ^ M)"
    by (simp only:)
  then show ?thesis by (simp only: of_int_less_iff)
qed

lemma Math_floor_log2_rounds_up: "Math_floor_log2 (2 ^ 49 - 1) = Some 49"
proof -
  define M :: nat where "M = 2 ^ 48"
  define n :: int where "n = 2 ^ 49 - 1"
  have n: "0 < n" "2 ^ 48 \<le> n" "n < 2 ^ Suc 48" "n = 2 ^ 49 - 1"
    by (simp_all add: n_def)
  have bn: "bitlen n = 49"
    using bitlen_eqI [OF n(2,3)] by simp
  have "bitlen 49 = int 5 + 1"
    by (rule bitlen_eqI) simp_all
  then have bc: "bitlen 49 - 1 = 5" by simp
  have Mif: "M = (if (49::int) = 2 ^ nat 5 then 2 ^ nat (54 - 5) else 2 ^ nat (53 - 5))"
    by (simp add: M_def)
  have M: "2 * M \<le> 2 ^ 49" "2 \<le> M"
    by (simp_all add: M_def)
  have "2 ^ (M * 49) < 2 * n ^ M"
    by (rule round_up [OF n(4) M])
  moreover have "nat 49 = (49::nat)" by simp
  ultimately have up: "2 ^ (M * nat 49) < 2 * n ^ M" by (simp only:)
  from Math_floor_log2_unfold [OF n(1) bn bc Mif]
  have "Math_floor_log2 n = Some 49"
    by (simp only: up if_True)
  then show ?thesis by (simp only: n_def)
qed

lemma Math_floor_log2_real:
  assumes "0 < n"
    and c_def: "c = bitlen n"
    and E_def: "E = bitlen c - 1"
    and M_def: "M = (if c = 2 ^ nat E then 2 ^ nat (54 - E) else 2 ^ nat (53 - E))"
  shows "c = \<lfloor>log 2 (real_of_int n)\<rfloor> + 1"
    and "Math_floor_log2 n =
      Some (if real_of_int c - 1 / real M < log 2 (real_of_int n) then c else c - 1)"
proof -
  show c: "c = \<lfloor>log 2 (real_of_int n)\<rfloor> + 1"
    using assms(1) by (simp add: c_def bitlen_alt_def)
  have Mpos: "0 < M" by (simp add: M_def)
  have rn: "0 < real_of_int n" using assms(1) by simp
  have nz: "bitlen n \<noteq> 0" using assms(1) by (simp add: bitlen_eq_zero_iff)
  with bitlen_nonneg [of n] have c0: "0 \<le> c" by (simp add: c_def)
  have "(2 ^ (M * nat c) < 2 * n ^ M) = (real_of_int (2 ^ (M * nat c)) < real_of_int (2 * n ^ M))"
    by (simp only: of_int_less_iff)
  also have "\<dots> = ((2::real) ^ (M * nat c) < 2 * real_of_int n ^ M)"
    by simp
  also have "\<dots> = (log 2 (2 ^ (M * nat c)) < log 2 (2 * real_of_int n ^ M))"
    using rn by (subst log_less_cancel_iff) simp_all
  also have "log 2 (2 ^ (M * nat c)) = real M * real_of_int c"
    using c0 by (simp add: log_nat_power)
  also have "log 2 (2 * real_of_int n ^ M) = 1 + real M * log 2 (real_of_int n)"
    using rn by (simp add: log_mult log_nat_power)
  also have "(real M * real_of_int c < 1 + real M * log 2 (real_of_int n))
      = (real_of_int c - 1 / real M < log 2 (real_of_int n))"
    using Mpos by (simp add: field_simps)
  finally have iff: "(2 ^ (M * nat c) < 2 * n ^ M)
      = (real_of_int c - 1 / real M < log 2 (real_of_int n))" .
  show "Math_floor_log2 n =
      Some (if real_of_int c - 1 / real M < log 2 (real_of_int n) then c else c - 1)"
    using Math_floor_log2_unfold [OF assms(1) c_def [symmetric] E_def [symmetric] M_def]
    by (simp only: iff)
qed

subsection \<open>Bit-level addition\<close>

declare fromUnsigned_loop.simps(2) [simp del]

lemma msbValue_lsbValue: "bits01 bs \<Longrightarrow> msbValue bs = lsbValue (rev bs)"
proof (induction bs)
  case Nil then show ?case by simp
next
  case (Cons b bs)
  have app: "lsbValue (xs @ [x]) = lsbValue xs + 2 ^ length xs * x" for xs x
    by (induction xs) (auto simp: algebra_simps)
  from Cons show ?case by (auto simp: bits01_def app)
qed

lemma add_step_bits:
  "a \<in> {0, 1} \<Longrightarrow> b \<in> {0, 1} \<Longrightarrow> c \<in> {0, 1} \<Longrightarrow>
   add_step a (Some b) c = ((a + b + c) mod 2, (a + b + c) div 2)"
  by (auto simp: add_step_def js_xor_def js_and_def js_or_def ToInt32_def)

lemma combineMap_add_step:
  "length xs = length ys \<Longrightarrow> bits01 xs \<Longrightarrow> bits01 ys \<Longrightarrow> c \<in> {0, 1} \<Longrightarrow>
   combineMap xs ys add_step c = (rs, c') \<Longrightarrow>
   length rs = length xs \<and> bits01 rs \<and> c' \<in> {0, 1} \<and>
   lsbValue rs + 2 ^ length xs * c' = lsbValue xs + lsbValue ys + c"
proof (induction xs ys arbitrary: c rs c' rule: list_induct2)
  case Nil
  then show ?case by (simp add: bits01_def)
next
  case (Cons x xs y ys)
  from Cons.prems have x: "x \<in> {0, 1}" and y: "y \<in> {0, 1}"
    and xs: "bits01 xs" and ys: "bits01 ys"
    by (auto simp: bits01_def)
  obtain rs1 c1 where rec: "combineMap xs ys add_step ((x + y + c) div 2) = (rs1, c1)"
    by fastforce
  have cin: "(x + y + c) div 2 \<in> {0, 1}"
    using x y Cons.prems(3) by auto
  from Cons.IH [OF xs ys cin rec]
  have ih: "length rs1 = length xs" "bits01 rs1" "c1 \<in> {0, 1}"
    "lsbValue rs1 + 2 ^ length xs * c1 = lsbValue xs + lsbValue ys + (x + y + c) div 2"
    by auto
  from Cons.prems(4) rec have res: "rs = (x + y + c) mod 2 # rs1" "c' = c1"
    by (auto simp: add_step_bits [OF x y Cons.prems(3)])
  have bit: "(x + y + c) mod 2 \<in> {0, 1}"
    by auto
  have "lsbValue rs + 2 ^ length (x # xs) * c'
      = (x + y + c) mod 2 + 2 * (lsbValue rs1 + 2 ^ length xs * c1)"
    by (simp add: res algebra_simps)
  also have "\<dots> = (x + y + c) mod 2 + 2 * ((x + y + c) div 2) + 2 * lsbValue xs + 2 * lsbValue ys"
    by (simp add: ih(4))
  also have "\<dots> = lsbValue (x # xs) + lsbValue (y # ys) + c"
    by simp
  finally have val: "lsbValue rs + 2 ^ length (x # xs) * c' = lsbValue (x # xs) + lsbValue (y # ys) + c" .
  have "bits01 rs"
    using ih(2) bit by (simp add: res bits01_def)
  with val ih(1,3) res show ?case
    by simp
qed

lemma msbValue_replicate1: "msbValue (replicate n 1) = 2 ^ n - 1"
  by (induction n) auto

lemma msbValue_flip:
  "bits01 bs \<Longrightarrow> msbValue (map (\<lambda>x. if x = 0 then 1 else 0) bs) = 2 ^ length bs - 1 - msbValue bs"
  by (induction bs) (auto simp: bits01_def)

lemma bits01_flip: "bits01 (map (\<lambda>x. if x = 0 then 1 else (0::int)) bs)"
  by (auto simp: bits01_def)

lemma add_correct:
  assumes len: "length (bits a) = length (bits b)"
    and a: "bits01 (bits a)" and b: "bits01 (bits b)"
  shows "\<exists>c rs. add a (Instance b) = Inr \<lparr>bits = c # rs\<rparr> \<and> length rs = length (bits a) \<and>
           c \<in> {0, 1} \<and> bits01 rs \<and>
           c * 2 ^ length (bits a) + msbValue rs = msbValue (bits a) + msbValue (bits b)"
proof -
  obtain rs c where cm: "combineMap (rev (bits a)) (rev (bits b)) add_step 0 = (rs, c)"
    by fastforce
  have "length (rev (bits a)) = length (rev (bits b))" "bits01 (rev (bits a))"
    "bits01 (rev (bits b))" "(0::int) \<in> {0, 1}"
    using len a b by (simp_all add: bits01_def)
  from combineMap_add_step [OF this cm]
  have r: "length rs = length (bits a)" "bits01 rs" "c \<in> {0, 1}"
    "lsbValue rs + 2 ^ length (bits a) * c = lsbValue (rev (bits a)) + lsbValue (rev (bits b))"
    by simp_all
  have r01: "bits01 (rev rs)"
    using r(2) by (simp add: bits01_def)
  have "msbValue (rev rs) = lsbValue rs"
    using msbValue_lsbValue [OF r01] by simp
  with r(4) have val: "c * 2 ^ length (bits a) + msbValue (rev rs) = msbValue (bits a) + msbValue (bits b)"
    by (simp add: msbValue_lsbValue [OF a] msbValue_lsbValue [OF b] mult.commute)
  have "add a (Instance b) = Inr \<lparr>bits = c # rev rs\<rparr>"
    using len cm by (simp add: add_def assertIsBinary_def assertSameNumberOfBits_def reverse_def)
  with val r r01 show ?thesis
    by auto
qed

lemma isInteger_of_int: "isInteger (of_int n)"
  by (simp add: isInteger_def)

lemma msb_one:
  assumes "bits01 bs" "length bs = Suc k" "2 ^ k \<le> msbValue bs"
  shows "\<exists>rest. bs = 1 # rest"
proof -
  from assms(2) obtain b rest where bs: "bs = b # rest" "length rest = k"
    by (cases bs) auto
  with assms(1) have "bits01 rest" "b = 0 \<or> b = 1"
    by (auto simp: bits01_def)
  with msbValue_bounds [of rest] assms(3) bs show ?thesis
    by auto
qed

lemma msbValue_inj:
  "length xs = length ys \<Longrightarrow> bits01 xs \<Longrightarrow> bits01 ys \<Longrightarrow> msbValue xs = msbValue ys \<Longrightarrow> xs = ys"
proof (induction xs ys rule: list_induct2)
  case Nil
  then show ?case by simp
next
  case (Cons x xs y ys)
  then have b: "bits01 xs" "bits01 ys" "x = 0 \<or> x = 1" "y = 0 \<or> y = 1"
    by (auto simp: bits01_def)
  from msbValue_bounds [OF b(1)] msbValue_bounds [OF b(2)] Cons.hyps Cons.prems(3) b(3,4)
  have "x = y \<and> msbValue xs = msbValue ys"
    by auto
  with Cons.IH [OF b(1,2)] show ?case by simp
qed

subsection \<open>fromUnsigned\<close>

lemma fromUnsigned_loop_correct:
  "n = nat (e + 1) \<Longrightarrow> - 1 \<le> e \<Longrightarrow> 0 \<le> r \<Longrightarrow> r < 2 ^ n \<Longrightarrow>
   2 ^ q dvd r \<Longrightarrow> r < 2 ^ (q + 53) \<Longrightarrow> r < 2 ^ 1024 \<Longrightarrow>
   \<exists>ds. fromUnsigned_loop (Some e) (Fin r) bs = bs @ ds \<and> length ds = n \<and> bits01 ds \<and>
        msbValue ds = r"
proof (induction n arbitrary: e r bs)
  case 0
  then have "e = - 1" by simp
  with 0 show ?case by (simp add: bits01_def fromUnsigned_loop.simps(2))
next
  case (Suc n)
  then have e: "0 \<le> e" "n = nat (e - 1 + 1)" "- 1 \<le> e - 1" "nat e = n"
    by auto
  have r2: "r < 2 * 2 ^ n"
    using Suc.prems(4) by simp
  have zero: "fromUnsigned_loop (Some e) (Fin r) bs = bs @ (0 # ds) \<and> length (0 # ds) = Suc n \<and>
      bits01 (0 # ds) \<and> msbValue (0 # ds) = r"
    if ge: "\<not> js_ge (Fin r) (js_pow2 n)"
      and ds: "fromUnsigned_loop (Some (e - 1)) (Fin r) (bs @ [0]) = (bs @ [0]) @ ds"
        "length ds = n" "bits01 ds" "msbValue ds = r" for ds
  proof -
    have "fromUnsigned_loop (Some e) (Fin r) bs = bs @ (0 # ds)"
      using ge e(1,4) ds(1) by (subst fromUnsigned_loop.simps(2)) simp
    then show ?thesis using ds(2-4) by (simp add: bits01_def)
  qed
  show ?case
  proof (cases "n \<le> 1023")
    case False
    then have pw: "js_pow2 n = PosInf" by (simp add: js_pow2_def)
    have "(2::int) ^ 1024 \<le> 2 ^ n"
      using False by (intro power_increasing) simp_all
    with Suc.prems(7) have "r < 2 ^ n" by linarith
    from Suc.IH [OF e(2,3) Suc.prems(3) this Suc.prems(5-7), of "bs @ [0]"]
    obtain ds where ds: "fromUnsigned_loop (Some (e - 1)) (Fin r) (bs @ [0]) = (bs @ [0]) @ ds"
      "length ds = n" "bits01 ds" "msbValue ds = r"
      by blast
    have "\<not> js_ge (Fin r) (js_pow2 n)" by (simp add: pw)
    from zero [OF this ds] show ?thesis by blast
  next
    case True
    then have pw: "js_pow2 n = Fin (2 ^ n)" by (simp add: js_pow2_def)
    show ?thesis
    proof (cases "2 ^ n \<le> r")
      case ge: True
      let ?r' = "r - 2 ^ n"
      have r': "0 \<le> ?r'" "?r' < 2 ^ n"
        using ge r2 by auto
      have qn: "q \<le> n"
      proof (rule ccontr)
        assume "\<not> q \<le> n"
        then have "Suc n \<le> q" by simp
        then have "(2::int) ^ Suc n \<le> 2 ^ q"
          by (intro power_increasing) simp_all
        with Suc.prems(4) have lt: "r < 2 ^ q" by linarith
        have "0 < r" using ge by (rule less_le_trans [rotated]) simp
        from zdvd_imp_le [OF Suc.prems(5) this] lt show False by simp
      qed
      then have "(2::int) ^ q dvd 2 ^ n" by (rule le_imp_power_dvd)
      with Suc.prems(5) have d: "2 ^ q dvd ?r'" by (rule dvd_diff)
      have p: "(0::int) < 2 ^ n" by simp
      have b: "\<bar>?r'\<bar> < 2 ^ (q + 53)" "\<bar>?r'\<bar> < 2 ^ 1024"
        using r'(1) Suc.prems(6,7) p by linarith+
      have sub: "js_sub (Fin r) (js_pow2 n) = Fin ?r'"
        using double_round_exact [OF d b] by (simp add: js_sub_def pw)
      have b': "?r' < 2 ^ (q + 53)" "?r' < 2 ^ 1024"
        using b by linarith+
      from Suc.IH [OF e(2,3) r'(1,2) d b', of "bs @ [1]"]
      obtain ds where ds: "fromUnsigned_loop (Some (e - 1)) (Fin ?r') (bs @ [1]) = (bs @ [1]) @ ds"
        "length ds = n" "bits01 ds" "msbValue ds = ?r'"
        by blast
      have jge: "js_ge (Fin r) (js_pow2 n)" using ge by (simp add: pw)
      have "fromUnsigned_loop (Some e) (Fin r) bs = bs @ (1 # ds)"
        using jge e(1,4) ds(1) by (subst fromUnsigned_loop.simps(2)) (simp add: sub)
      moreover have "length (1 # ds) = Suc n" "bits01 (1 # ds)" "msbValue (1 # ds) = r"
        using ds by (simp_all add: bits01_def)
      ultimately show ?thesis by blast
    next
      case False
      then have lt: "r < 2 ^ n" by simp
      from Suc.IH [OF e(2,3) Suc.prems(3) lt Suc.prems(5-7), of "bs @ [0]"]
      obtain ds where ds: "fromUnsigned_loop (Some (e - 1)) (Fin r) (bs @ [0]) = (bs @ [0]) @ ds"
        "length ds = n" "bits01 ds" "msbValue ds = r"
        by blast
      have "\<not> js_ge (Fin r) (js_pow2 n)" using False by (simp add: pw)
      from zero [OF this ds] show ?thesis by blast
    qed
  qed
qed

lemma isDouble_abs:
  assumes "isDouble n"
  shows "isDouble \<bar>n\<bar>"
proof -
  from isDouble_cases [OF assms] obtain q where
    "2 ^ q dvd n" "\<bar>n\<bar> < 2 ^ (q + 53)" "\<bar>n\<bar> < 2 ^ 1024"
    by blast
  then have "2 ^ q dvd \<bar>n\<bar>" "\<bar>\<bar>n\<bar>\<bar> < 2 ^ (q + 53)" "\<bar>\<bar>n\<bar>\<bar> < 2 ^ 1024"
    by simp_all
  from double_round_exact [OF this] show ?thesis by (simp add: isDouble_def)
qed

lemma fromUnsigned_pos:
  assumes n: "0 < n" and dbl: "isDouble n"
  shows "\<exists>ds e. Math_floor_log2 n = Some e \<and> 0 \<le> e \<and> (e = bitlen n - 1 \<or> e = bitlen n) \<and>
           fromUnsigned (of_int n) = Inr \<lparr>bits = ds\<rparr> \<and> length ds = nat (e + 1) \<and>
           bits01 ds \<and> msbValue ds = n \<and> toNumber \<lparr>bits = ds\<rparr> = Fin n"
proof -
  from Math_floor_log2_range [OF n] obtain e where
    e: "Math_floor_log2 n = Some e" "e = bitlen n - 1 \<or> e = bitlen n"
    by blast
  note eb = Math_floor_log2_bounds [OF n e(1)]
  from isDouble_cases [OF dbl] n obtain q where
    q: "2 ^ q dvd n" "n < 2 ^ (q + 53)" "n < 2 ^ 1024"
    by auto
  have "- 1 \<le> e" "0 \<le> n" using eb(1) n by simp_all
  from fromUnsigned_loop_correct [OF refl this eb(2) q, of "[]"]
  obtain ds where ds: "fromUnsigned_loop (Some e) (Fin n) [] = ds" "length ds = nat (e + 1)"
    "bits01 ds" "msbValue ds = n"
    by auto
  have tn: "toNumber \<lparr>bits = ds\<rparr> = Fin n"
    using toNumber_exact [OF ds(3), of q] q unfolding ds(4) by simp
  have "fromUnsigned (of_int n) = Inr \<lparr>bits = ds\<rparr>"
    using n ds(1) by (simp add: fromUnsigned_def isInteger_def e(1))
  with e eb(1) ds(2-4) tn show ?thesis by blast
qed

lemma fromUnsigned_zero: "fromUnsigned 0 = Inr \<lparr>bits = [0]\<rparr>"
  by (simp add: fromUnsigned_def isInteger_def)

lemma toNumber_single_zero: "toNumber \<lparr>bits = [0]\<rparr> = Fin 0"
  by (simp add: toNumber_def)

lemma Math_floor_log2_one: "Math_floor_log2 1 = Some 0"
proof -
  have "bitlen 1 = int 0 + 1"
    by (rule bitlen_eqI) simp_all
  with Math_floor_log2_small [of 1] show ?thesis by simp
qed

lemma fromUnsigned_one: "fromUnsigned 1 = Inr \<lparr>bits = [1]\<rparr>"
  by (simp add: fromUnsigned_def isInteger_def Math_floor_log2_one fromUnsigned_loop.simps(2)
      js_pow2_def js_sub_def double_round_small)

subsection \<open>Signed numbers and the round trips\<close>

lemma toSignedNumber_msb1:
  assumes v: "bits01 (bits v)" and msb: "bits v = 1 # rest"
  shows "\<exists>ps. toSignedNumber v = Inr (js_neg (toNumber \<lparr>bits = ps\<rparr>)) \<and> bits01 ps \<and>
           length ps = length (bits v) \<and>
           msbValue ps = 2 ^ length (bits v) - msbValue (bits v)"
proof -
  let ?L = "length (bits v)"
  let ?m1 = "\<lparr>bits = replicate ?L 1\<rparr>"
  have "length (bits v) = length (bits ?m1)" "bits01 (bits ?m1)"
    by (auto simp: bits01_def)
  from add_correct [OF this(1) v this(2)]
  obtain c rs where s: "add v (Instance ?m1) = Inr \<lparr>bits = c # rs\<rparr>" "length rs = ?L"
    "c \<in> {0, 1}" "bits01 rs" "c * 2 ^ ?L + msbValue rs = msbValue (bits v) + (2 ^ ?L - 1)"
    by (auto simp: msbValue_replicate1)
  have "bits01 rest" using v msb by (simp add: bits01_def)
  then have "0 \<le> msbValue rest" using msbValue_bounds by blast
  moreover have "(1::int) \<le> 2 ^ length rest"
    by simp
  moreover have "msbValue (bits v) = 2 ^ length rest + msbValue rest"
    by (simp add: msb)
  ultimately have pos: "1 \<le> msbValue (bits v)"
    by linarith
  have "msbValue rs < 2 ^ ?L"
    using msbValue_bounds [OF s(4)] s(2) by simp
  with s(5) pos have "c \<noteq> 0"
    by auto
  with s(3) have "c = 1" by simp
  with s(5) have rs: "msbValue rs = msbValue (bits v) - 1" by simp
  let ?ps = "map (\<lambda>x. if x = 0 then 1 else 0) rs"
  have "toSignedNumber v = Inr (js_neg (toNumber \<lparr>bits = ?ps\<rparr>))"
    using msb s(1) by (simp add: toSignedNumber_def not_Binary_def msb)
  moreover have "msbValue ?ps = 2 ^ ?L - msbValue (bits v)"
    by (simp add: msbValue_flip [OF s(4)] rs s(2))
  moreover have "bits01 ?ps" by (rule bits01_flip)
  moreover have "length ?ps = ?L" by (simp add: s(2))
  ultimately show ?thesis by blast
qed

lemma fromSigned_neg:
  assumes n: "n < 0" and dbl: "isDouble n"
  shows "\<exists>bs w e. fromSigned (of_int n) = Inr \<lparr>bits = bs\<rparr> \<and> bits01 bs \<and>
           length bs = Suc w \<and> - n < 2 ^ w \<and> msbValue bs = 2 ^ Suc w + n \<and>
           Math_floor_log2 (- n) = Some e \<and> w = nat (e + 1)"
proof -
  have m: "0 < - n" using n by simp
  have "isDouble \<bar>n\<bar>" by (rule isDouble_abs [OF dbl])
  then have md: "isDouble (- n)" using n by simp
  from fromUnsigned_pos [OF m md]
  obtain ds e where ds: "Math_floor_log2 (- n) = Some e" "0 \<le> e"
    "fromUnsigned (of_int (- n)) = Inr \<lparr>bits = ds\<rparr>" "length ds = nat (e + 1)"
    "bits01 ds" "msbValue ds = - n"
    by blast
  define k where "k = nat (e + 1)"
  have k: "0 < k" "length ds = k" using ds(2,4) by (simp_all add: k_def)
  have lt: "- n < 2 ^ k"
    using Math_floor_log2_bounds(2) [OF m ds(1)] by (simp add: k_def)
  let ?w = "\<lparr>bits = 0 # ds\<rparr>"
  let ?f = "not_Binary ?w"
  let ?one = "\<lparr>bits = replicate k 0 @ [1]\<rparr>"
  have ze: "zeroExtend \<lparr>bits = ds\<rparr> (int (length ds) + 1) = Inr ?w"
    by (simp add: zeroExtend_def)
  have zo: "zeroExtend \<lparr>bits = [1]\<rparr> (int (length ds) + 1) = Inr ?one"
    using k by (simp add: zeroExtend_def nat_add_distrib)
  have f01: "bits01 (bits ?f)"
    by (auto simp: not_Binary_def bits01_def)
  have fl: "length (bits ?f) = length (bits ?one)"
    by (simp add: not_Binary_def k(2))
  have o01: "bits01 (bits ?one)"
    by (auto simp: bits01_def)
  have w01: "bits01 (0 # ds)"
    using ds(5) by (simp add: bits01_def)
  have pf: "msbValue (bits ?f) = 2 ^ Suc k - 1 + n"
    using msbValue_flip [OF w01] k(2) ds(6) by (simp add: not_Binary_def)
  have po: "msbValue (bits ?one) = 1"
    by (simp add: msbValue_append msbValue_replicate0)
  from add_correct [OF fl f01 o01]
  obtain c rs where s: "add ?f (Instance ?one) = Inr \<lparr>bits = c # rs\<rparr>" "length rs = Suc k"
    "c \<in> {0, 1}" "bits01 rs" "c * 2 ^ Suc k + msbValue rs = 2 ^ Suc k + n"
    unfolding pf po by (auto simp: not_Binary_def k(2))
  have "0 \<le> msbValue rs"
    using msbValue_bounds [OF s(4)] by simp
  with s(5) n have "c \<noteq> 1"
    by auto
  with s(3) have "c = 0" by simp
  with s(5) have rs: "msbValue rs = 2 ^ Suc k + n" by simp
  have nz: "(of_int n :: rat) \<noteq> 0" "\<not> (0 < (of_int n :: rat))" "\<bar>of_int n :: rat\<bar> = of_int (- n)"
    using n by simp_all
  have "fromSigned (of_int n) = Inr \<lparr>bits = rs\<rparr>"
    unfolding fromSigned_def
    by (simp only: isInteger_of_int nz ds(3) ze zo s(1) fromUnsigned_one Let_def
        sum.case Binary.simps list.sel simp_thms if_False if_True)
  with s(2,4) rs lt ds(1) k_def show ?thesis
    by blast
qed

lemma fromSigned_pos:
  assumes n: "0 < n" and dbl: "isDouble n"
  shows "\<exists>ds. fromSigned (of_int n) = Inr \<lparr>bits = 0 # ds\<rparr> \<and> bits01 ds \<and> msbValue ds = n"
proof -
  from fromUnsigned_pos [OF n dbl]
  obtain ds where ds: "fromUnsigned (of_int n) = Inr \<lparr>bits = ds\<rparr>"
    "bits01 ds" "msbValue ds = n"
    by blast
  have ze: "zeroExtend \<lparr>bits = ds\<rparr> (int (length ds) + 1) = Inr \<lparr>bits = 0 # ds\<rparr>"
    by (simp add: zeroExtend_def)
  have nz: "(of_int n :: rat) \<noteq> 0" "0 < (of_int n :: rat)" "\<bar>of_int n :: rat\<bar> = of_int n"
    using n by simp_all
  have "fromSigned (of_int n) = Inr \<lparr>bits = 0 # ds\<rparr>"
    unfolding fromSigned_def
    by (simp only: isInteger_of_int nz ds(1) ze Let_def
        sum.case Binary.simps list.sel simp_thms if_False if_True)
  with ds show ?thesis by simp
qed

lemma toNumber_of_double:
  assumes "bits01 bs" "0 \<le> n" "isDouble n" "msbValue bs = n"
  shows "toNumber \<lparr>bits = bs\<rparr> = Fin n"
proof -
  from isDouble_cases [OF assms(3)] assms(2) obtain q where
    "2 ^ q dvd n" "n < 2 ^ (q + 53)" "n < 2 ^ 1024"
    by auto
  with toNumber_exact [OF assms(1), of q] assms(4) show ?thesis by simp
qed

text \<open>Claim C1. For every integer \<open>n\<close> (an integer that a JavaScript number holds, which
  is what \<^verbatim>\<open>fromSigned\<close> can be given: every integer up to \<open>2 ^ 53\<close> in magnitude, and
  the larger ones that are doubles), \<^verbatim>\<open>fromSigned(n)\<close> returns a Binary and
  \<^verbatim>\<open>toSignedNumber()\<close> of that Binary returns \<open>n\<close>. The proof uses of
  \<^verbatim>\<open>Math.floor(Math.log2(n))\<close> only that it is \<open>\<lfloor>log\<^sub>2 n\<rfloor>\<close> or one more, so it covers the
  integers where \<^verbatim>\<open>Math.log2\<close> rounds up and the representation gets one more leading
  bit.\<close>

theorem fromSigned_toSignedNumber:
  "isDouble n \<Longrightarrow> \<exists>b. fromSigned (of_int n) = Inr b \<and> toSignedNumber b = Inr (Fin n)"
proof -
  assume dbl: "isDouble n"
  consider "n = 0" | "0 < n" | "n < 0" by linarith
  then show ?thesis
  proof cases
    case 1
    have "fromSigned 0 = Inr \<lparr>bits = [0]\<rparr>" "toSignedNumber \<lparr>bits = [0]\<rparr> = Inr (Fin 0)"
      by (simp_all add: fromSigned_def isInteger_def toSignedNumber_def toNumber_def)
    with 1 show ?thesis by simp
  next
    case 2
    from fromSigned_pos [OF 2 dbl] obtain ds where
      ds: "fromSigned (of_int n) = Inr \<lparr>bits = 0 # ds\<rparr>" "bits01 ds" "msbValue ds = n"
      by blast
    have "bits01 (0 # ds)" "msbValue (0 # ds) = n"
      using ds(2,3) by (simp_all add: bits01_def)
    from toNumber_of_double [OF this(1) _ dbl this(2)] 2
    have "toNumber \<lparr>bits = 0 # ds\<rparr> = Fin n" by simp
    then have "toSignedNumber \<lparr>bits = 0 # ds\<rparr> = Inr (Fin n)"
      by (simp add: toSignedNumber_def)
    with ds(1) show ?thesis by simp
  next
    case 3
    from fromSigned_neg [OF 3 dbl] obtain bs w e where
      bs: "fromSigned (of_int n) = Inr \<lparr>bits = bs\<rparr>" "bits01 bs"
        "length bs = Suc w" "- n < 2 ^ w" "msbValue bs = 2 ^ Suc w + n"
      by blast
    have "2 ^ w \<le> msbValue bs"
      using bs(4,5) by simp
    from msb_one [OF bs(2,3) this] obtain rest where "bs = 1 # rest" ..
    then have "bits \<lparr>bits = bs\<rparr> = 1 # rest" by simp
    from toSignedNumber_msb1 [OF _ this] bs(2)
    obtain ps where ps: "toSignedNumber \<lparr>bits = bs\<rparr> = Inr (js_neg (toNumber \<lparr>bits = ps\<rparr>))"
      "bits01 ps" "msbValue ps = 2 ^ length bs - msbValue bs"
      by auto
    have "isDouble \<bar>n\<bar>" by (rule isDouble_abs [OF dbl])
    then have md: "isDouble (- n)" using 3 by simp
    have "msbValue ps = - n" using ps(3) bs(3,5) by simp
    from toNumber_of_double [OF ps(2) _ md this] 3
    have "toNumber \<lparr>bits = ps\<rparr> = Fin (- n)" by simp
    with ps(1) have "toSignedNumber \<lparr>bits = bs\<rparr> = Inr (Fin n)" by simp
    with bs(1) show ?thesis by simp
  qed
qed

text \<open>Claim C2. For every integer \<open>n \<ge> 0\<close> (an integer that a JavaScript number holds),
  \<^verbatim>\<open>fromUnsigned(n)\<close> returns a Binary and \<^verbatim>\<open>toNumber()\<close> of that Binary returns
  \<open>n\<close>, also where \<^verbatim>\<open>Math.log2\<close> rounds up and the loop starts one exponent too high.\<close>

theorem fromUnsigned_toNumber:
  "0 \<le> n \<Longrightarrow> isDouble n \<Longrightarrow> \<exists>b. fromUnsigned (of_int n) = Inr b \<and> toNumber b = Fin n"
proof (cases "n = 0")
  case True
  with fromUnsigned_zero toNumber_single_zero show ?thesis by simp
next
  case False
  assume "0 \<le> n" "isDouble n"
  with False have "0 < n" by simp
  from fromUnsigned_pos [OF this \<open>isDouble n\<close>] show ?thesis
    by auto
qed

lemma fromUnsigned_eval:
  assumes "0 < n" "isDouble n" "Math_floor_log2 n = Some e"
    and "bits01 X" "length X = nat (e + 1)" "msbValue X = n"
  shows "fromUnsigned (of_int n) = Inr \<lparr>bits = X\<rparr>"
proof -
  from fromUnsigned_pos [OF assms(1,2)] assms(3)
  obtain ds where ds: "fromUnsigned (of_int n) = Inr \<lparr>bits = ds\<rparr>" "length ds = nat (e + 1)"
    "bits01 ds" "msbValue ds = n"
    by auto
  have "ds = X"
    using ds(2-4) assms(4-6) by (intro msbValue_inj) simp_all
  with ds(1) show ?thesis by simp
qed

lemma fromSigned_neg_eval:
  assumes "n < 0" "isDouble n" "Math_floor_log2 (- n) = Some e"
    and "bits01 X" "length X = Suc (nat (e + 1))" "msbValue X = 2 ^ Suc (nat (e + 1)) + n"
  shows "fromSigned (of_int n) = Inr \<lparr>bits = X\<rparr>"
proof -
  from fromSigned_neg [OF assms(1,2)] assms(3)
  obtain bs where bs: "fromSigned (of_int n) = Inr \<lparr>bits = bs\<rparr>" "bits01 bs"
    "length bs = Suc (nat (e + 1))" "msbValue bs = 2 ^ Suc (nat (e + 1)) + n"
    by auto
  have "bs = X"
    using bs(2-4) assms(4-6) by (intro msbValue_inj) simp_all
  with bs(1) show ?thesis by simp
qed

lemma bits01_simps:
  "bits01 []" "bits01 (b # bs) = ((b = 0 \<or> b = 1) \<and> bits01 bs)"
  "bits01 (xs @ ys) = (bits01 xs \<and> bits01 ys)"
  "bits01 (replicate k 0)" "bits01 (replicate k 1)"
  by (auto simp: bits01_def)

lemma Math_floor_log2_ten: "Math_floor_log2 10 = Some 3"
proof -
  have "bitlen 10 = int 3 + 1"
    by (rule bitlen_eqI) simp_all
  with Math_floor_log2_small [of 10] show ?thesis by simp
qed

lemma fromUnsigned_ten: "fromUnsigned (of_int 10) = Inr \<lparr>bits = [1, 0, 1, 0]\<rparr>"
  by (rule fromUnsigned_eval [OF _ _ Math_floor_log2_ten])
    (simp_all add: isDouble_small bits01_simps)

lemma isDouble_2p49m1: "isDouble (2 ^ 49 - 1)" "isDouble (- (2 ^ 49 - 1))"
  by (simp_all add: isDouble_small)

lemma fromUnsigned_2p49m1:
  "fromUnsigned (of_int (2 ^ 49 - 1)) = Inr \<lparr>bits = 0 # replicate 49 1\<rparr>"
  by (rule fromUnsigned_eval [OF _ isDouble_2p49m1(1) Math_floor_log2_rounds_up])
    (simp_all add: bits01_simps msbValue_replicate1)

lemma fromSigned_m2p49m1:
  "fromSigned (of_int (- (2 ^ 49 - 1))) = Inr \<lparr>bits = 1 # 1 # replicate 48 0 @ [1]\<rparr>"
proof -
  have e: "Math_floor_log2 (- (- (2 ^ 49 - 1))) = Some 49"
    using Math_floor_log2_rounds_up by simp
  show ?thesis
    by (rule fromSigned_neg_eval [OF _ isDouble_2p49m1(2) e])
      (simp_all add: bits01_simps msbValue_append msbValue_replicate0)
qed

theorem fromSigned_toSignedNumber_witness:
  "isDouble (- (2 ^ 49 - 1)) \<and>
   fromSigned (of_int (- (2 ^ 49 - 1))) = Inr \<lparr>bits = 1 # 1 # replicate 48 0 @ [1]\<rparr> \<and>
   toSignedNumber \<lparr>bits = 1 # 1 # replicate 48 0 @ [1]\<rparr> = Inr (Fin (- (2 ^ 49 - 1)))"
proof -
  from fromSigned_toSignedNumber [OF isDouble_2p49m1(2)]
  obtain b where b: "fromSigned (of_int (- (2 ^ 49 - 1))) = Inr b"
    "toSignedNumber b = Inr (Fin (- (2 ^ 49 - 1)))"
    by blast
  from b(1) have "b = \<lparr>bits = 1 # 1 # replicate 48 0 @ [1]\<rparr>"
    unfolding fromSigned_m2p49m1 by (simp only: sum.inject)
  with b(2) isDouble_2p49m1(2) fromSigned_m2p49m1 show ?thesis
    by blast
qed

theorem fromUnsigned_toNumber_witness:
  "(0::int) \<le> 10 \<and> isDouble 10 \<and> fromUnsigned (of_int 10) = Inr \<lparr>bits = [1, 0, 1, 0]\<rparr> \<and>
   toNumber \<lparr>bits = [1, 0, 1, 0]\<rparr> = Fin 10 \<and>
   (0::int) \<le> 2 ^ 49 - 1 \<and> isDouble (2 ^ 49 - 1) \<and>
   fromUnsigned (of_int (2 ^ 49 - 1)) = Inr \<lparr>bits = 0 # replicate 49 1\<rparr> \<and>
   toNumber \<lparr>bits = 0 # replicate 49 1\<rparr> = Fin (2 ^ 49 - 1)"
proof -
  have d: "isDouble 10" by (simp add: isDouble_small)
  have "(0::int) \<le> 10" "(0::int) \<le> 2 ^ 49 - 1" by simp_all
  note nonneg = this
  from fromUnsigned_toNumber [OF nonneg(1) d]
  obtain b where b: "fromUnsigned (of_int 10) = Inr b" "toNumber b = Fin 10"
    by blast
  from b(1) have b': "b = \<lparr>bits = [1, 0, 1, 0]\<rparr>"
    unfolding fromUnsigned_ten by (simp only: sum.inject)
  from fromUnsigned_toNumber [OF nonneg(2) isDouble_2p49m1(1)]
  obtain c where c: "fromUnsigned (of_int (2 ^ 49 - 1)) = Inr c" "toNumber c = Fin (2 ^ 49 - 1)"
    by blast
  from c(1) have c': "c = \<lparr>bits = 0 # replicate 49 1\<rparr>"
    unfolding fromUnsigned_2p49m1 by (simp only: sum.inject)
  from nonneg d isDouble_2p49m1(1) fromUnsigned_ten fromUnsigned_2p49m1 b(2) c(2)
  show ?thesis
    unfolding b' c' by blast
qed

text \<open>Claim C5 fails on the code at \<open>n = 2 ^ 49 - 1 = 562949953421311\<close>. The double nearest
  to \<open>log\<^sub>2 n\<close> is 49, so the loop starts at exponent 49 and not at the largest power of two
  that fits, \<open>2 ^ 48\<close>: the result has 50 elements, the first of them 0, where
  \<open>\<lfloor>log\<^sub>2 n\<rfloor> + 1 = 49\<close>. The comment above \<^verbatim>\<open>fromUnsigned\<close> says "starting with the
  largest fit".\<close>

theorem fromUnsigned_not_minimal:
  "fromUnsigned (of_int (2 ^ 49 - 1)) = Inr \<lparr>bits = 0 # replicate 49 1\<rparr> \<and>
   \<lfloor>log 2 (real_of_int (2 ^ 49 - 1))\<rfloor> + 1 = 49"
proof -
  have "(2::int) ^ 48 \<le> 2 ^ 49 - 1" "(2::int) ^ 49 - 1 < 2 ^ Suc 48"
    by simp_all
  from bitlen_eqI [OF this] have "bitlen (2 ^ 49 - 1) = 49" by simp
  then have "\<lfloor>log 2 (real_of_int (2 ^ 49 - 1))\<rfloor> + 1 = 49"
    by (simp add: bitlen_alt_def)
  with fromUnsigned_2p49m1 show ?thesis by blast
qed

subsection \<open>Addition, the signed reading and zero extension\<close>

text \<open>Claim C3, as stated, fails on the code from width 54 on, because \<^verbatim>\<open>toNumber\<close> adds
  doubles. For \<open>a = [1, 0 \<times> 52, 1]\<close> and \<open>b = [0 \<times> 53, 1]\<close>, \<^verbatim>\<open>a.toNumber()\<close> is
  \<open>2 ^ 53\<close> (the last 1 is rounded away) and \<^verbatim>\<open>a.toNumber() + b.toNumber()\<close> is
  \<open>2 ^ 53 = 9007199254740992\<close>, while \<^verbatim>\<open>a.add(b)\<close> holds the exact sum
  \<open>2 ^ 53 + 2\<close> and its \<^verbatim>\<open>toNumber()\<close> is \<open>9007199254740994\<close>.\<close>

theorem add_sum_counterexample:
  "length (bits \<lparr>bits = 1 # replicate 52 0 @ [1]\<rparr>) = length (bits \<lparr>bits = replicate 53 0 @ [1]\<rparr>) \<and>
   bits01 (bits \<lparr>bits = 1 # replicate 52 0 @ [1]\<rparr>) \<and> bits01 (bits \<lparr>bits = replicate 53 0 @ [1]\<rparr>) \<and>
   add \<lparr>bits = 1 # replicate 52 0 @ [1]\<rparr> (Instance \<lparr>bits = replicate 53 0 @ [1]\<rparr>)
     = Inr \<lparr>bits = 0 # 1 # replicate 51 0 @ [1, 0]\<rparr> \<and>
   toNumber \<lparr>bits = 0 # 1 # replicate 51 0 @ [1, 0]\<rparr> = Fin 9007199254740994 \<and>
   js_add (toNumber \<lparr>bits = 1 # replicate 52 0 @ [1]\<rparr>) (toNumber \<lparr>bits = replicate 53 0 @ [1]\<rparr>)
     = Fin 9007199254740992"
  by code_simp

text \<open>Claim C10, as stated, fails on the code from width 54 on. For the vector of 54 ones,
  \<^verbatim>\<open>toSignedNumber()\<close> returns \<open>-1\<close>, but \<^verbatim>\<open>toNumber()\<close> rounds \<open>2 ^ 54 - 1\<close> to
  \<open>2 ^ 54\<close>, so \<^verbatim>\<open>toNumber() - 2 ** 54\<close> is 0.\<close>

theorem toSignedNumber_counterexample:
  "bits01 (bits \<lparr>bits = replicate 54 1\<rparr>) \<and> hd (bits \<lparr>bits = replicate 54 1\<rparr>) = 1 \<and>
   length (bits \<lparr>bits = replicate 54 1\<rparr>) = 54 \<and>
   toSignedNumber \<lparr>bits = replicate 54 1\<rparr> = Inr (Fin (- 1)) \<and>
   js_sub (toNumber \<lparr>bits = replicate 54 1\<rparr>) (js_pow2 54) = Fin 0"
  by code_simp

lemma toNumber_bits: "toNumber \<lparr>bits = bits a\<rparr> = toNumber a"
  by (simp add: toNumber_alt)

text \<open>Claim C3, amended. For Binaries \<open>a\<close> and \<open>b\<close> of equal width \<open>L\<close> whose elements
  are all 0 or 1, \<^verbatim>\<open>a.add(b)\<close> returns a Binary of width \<open>L + 1\<close> whose bits are the exact
  binary sum of the bits of \<open>a\<close> and of \<open>b\<close>: its first element is the carry left by the last
  step of the ripple, that is the sum divided by \<open>2 ^ L\<close>, and the remaining \<open>L\<close> elements
  hold the sum modulo \<open>2 ^ L\<close>, so nothing is truncated. When \<open>L \<le> 53\<close>, its
  \<^verbatim>\<open>toNumber()\<close> equals \<^verbatim>\<open>a.toNumber() + b.toNumber()\<close>.\<close>

theorem add_width_and_value:
  assumes "length (bits a) = length (bits b)" "bits01 (bits a)" "bits01 (bits b)"
  shows "\<exists>r. add a (Instance b) = Inr r \<and> length (bits r) = length (bits a) + 1 \<and>
           bits01 (bits r) \<and>
           msbValue (bits r) = msbValue (bits a) + msbValue (bits b) \<and>
           hd (bits r) = snd (combineMap (reverse (bits a)) (reverse (bits b)) add_step 0) \<and>
           hd (bits r) = (msbValue (bits a) + msbValue (bits b)) div 2 ^ length (bits a) \<and>
           msbValue (tl (bits r)) = (msbValue (bits a) + msbValue (bits b)) mod 2 ^ length (bits a) \<and>
           (length (bits a) \<le> 53 \<longrightarrow> toNumber r = js_add (toNumber a) (toNumber b))"
proof -
  let ?L = "length (bits a)"
  let ?S = "msbValue (bits a) + msbValue (bits b)"
  from add_correct [OF assms]
  obtain c rs where s: "add a (Instance b) = Inr \<lparr>bits = c # rs\<rparr>" "length rs = ?L"
    "c \<in> {0, 1}" "bits01 rs" "c * 2 ^ ?L + msbValue rs = ?S"
    by blast
  have p: "0 \<le> msbValue rs" "msbValue rs < 2 ^ ?L"
    using msbValue_bounds [OF s(4)] s(2) by simp_all
  have S: "?S = msbValue rs + c * 2 ^ ?L"
    using s(5) by simp
  have dv: "?S div 2 ^ ?L = c"
    unfolding S using p by simp
  have md: "?S mod 2 ^ ?L = msbValue rs"
    unfolding S using p by simp
  have val: "msbValue (c # rs) = ?S"
    using s(2,3,5) by auto
  have r01: "bits01 (c # rs)"
    using s(3,4) by (auto simp: bits01_def)
  have carry: "snd (combineMap (reverse (bits a)) (reverse (bits b)) add_step 0) = c"
    using s(1) assms(1)
    by (simp add: add_def assertIsBinary_def assertSameNumberOfBits_def split: prod.splits)
  have num: "toNumber \<lparr>bits = c # rs\<rparr> = js_add (toNumber a) (toNumber b)" if L: "?L \<le> 53"
  proof -
    have "toNumber \<lparr>bits = bits a\<rparr> = Fin (msbValue (bits a))"
      "toNumber \<lparr>bits = bits b\<rparr> = Fin (msbValue (bits b))"
      using L assms(1) by (simp_all add: toNumber_53 [OF assms(2)] toNumber_53 [OF assms(3)])
    then have ab: "toNumber a = Fin (msbValue (bits a))" "toNumber b = Fin (msbValue (bits b))"
      by (simp_all only: toNumber_bits)
    have "length (c # rs) \<le> 54" using L s(2) by simp
    from toNumber_54 [OF r01 this] have "toNumber \<lparr>bits = c # rs\<rparr> = double_round ?S"
      by (simp only: val)
    then show ?thesis by (simp add: ab)
  qed
  show ?thesis
    using s(1,2) val r01 carry dv md num by simp
qed

theorem add_width_and_value_witness:
  "length (bits \<lparr>bits = [1, 0, 1, 1]\<rparr>) = length (bits \<lparr>bits = [0, 1, 0, 1]\<rparr>) \<and>
   bits01 (bits \<lparr>bits = [1, 0, 1, 1]\<rparr>) \<and> bits01 (bits \<lparr>bits = [0, 1, 0, 1]\<rparr>) \<and>
   length (bits \<lparr>bits = [1, 0, 1, 1]\<rparr>) \<le> 53 \<and>
   add \<lparr>bits = [1, 0, 1, 1]\<rparr> (Instance \<lparr>bits = [0, 1, 0, 1]\<rparr>) = Inr \<lparr>bits = [1, 0, 0, 0, 0]\<rparr> \<and>
   toNumber \<lparr>bits = [1, 0, 0, 0, 0]\<rparr> =
     js_add (toNumber \<lparr>bits = [1, 0, 1, 1]\<rparr>) (toNumber \<lparr>bits = [0, 1, 0, 1]\<rparr>)"
proof -
  have h: "length (bits \<lparr>bits = [1, 0, 1, 1]\<rparr>) = length (bits \<lparr>bits = [0, 1, 0, 1]\<rparr>)"
    "bits01 (bits \<lparr>bits = [1, 0, 1, 1]\<rparr>)" "bits01 (bits \<lparr>bits = [0, 1, 0, 1]\<rparr>)"
    by (simp_all add: bits01_def)
  have e: "add \<lparr>bits = [1, 0, 1, 1]\<rparr> (Instance \<lparr>bits = [0, 1, 0, 1]\<rparr>) = Inr \<lparr>bits = [1, 0, 0, 0, 0]\<rparr>"
    by code_simp
  from add_width_and_value [OF h] e h show ?thesis
    by auto
qed

text \<open>Claim C10, amended. For every Binary \<open>v\<close> of width \<open>L \<le> 53\<close> whose elements are
  all 0 or 1 and whose first element is 1, \<^verbatim>\<open>toSignedNumber()\<close> returns
  \<^verbatim>\<open>toNumber() - 2 ** L\<close>, the two's-complement value of the bits, whether or not \<open>v\<close> was
  produced by \<^verbatim>\<open>fromSigned\<close>.\<close>

theorem toSignedNumber_twos_complement:
  assumes "bits01 (bits v)" "bits v \<noteq> []" "hd (bits v) = 1" "length (bits v) \<le> 53"
  shows "toSignedNumber v = Inr (js_sub (toNumber v) (js_pow2 (length (bits v)))) \<and>
         toNumber v = Fin (msbValue (bits v)) \<and>
         toSignedNumber v = Inr (Fin (msbValue (bits v) - 2 ^ length (bits v)))"
proof -
  let ?L = "length (bits v)"
  let ?V = "msbValue (bits v)"
  from assms(2,3) obtain rest where msb: "bits v = 1 # rest"
    by (cases "bits v") auto
  from toSignedNumber_msb1 [OF assms(1) msb]
  obtain ps where ps: "toSignedNumber v = Inr (js_neg (toNumber \<lparr>bits = ps\<rparr>))" "bits01 ps"
    "length ps = ?L" "msbValue ps = 2 ^ ?L - ?V"
    by blast
  have "toNumber \<lparr>bits = ps\<rparr> = Fin (2 ^ ?L - ?V)"
    using toNumber_53 [OF ps(2)] assms(4) ps(3,4) by simp
  with ps(1) have signed: "toSignedNumber v = Inr (Fin (?V - 2 ^ ?L))" by simp
  have "toNumber \<lparr>bits = bits v\<rparr> = Fin ?V"
    by (rule toNumber_53 [OF assms(1,4)])
  then have tn: "toNumber v = Fin ?V" by (simp only: toNumber_bits)
  have pw: "js_pow2 ?L = Fin (2 ^ ?L)"
    using assms(4) by (simp add: js_pow2_def)
  have b: "0 \<le> ?V" "?V < 2 ^ ?L"
    using msbValue_bounds [OF assms(1)] by simp_all
  have "(2::int) ^ ?L \<le> 2 ^ 53"
    using assms(4) by (intro power_increasing) simp_all
  moreover have "1 \<le> ?V"
  proof -
    have "bits01 rest" using assms(1) msb by (simp add: bits01_def)
    then have "0 \<le> msbValue rest" using msbValue_bounds by blast
    moreover have "(1::int) \<le> 2 ^ length rest" by simp
    moreover have "?V = 2 ^ length rest + msbValue rest" by (simp add: msb)
    ultimately show ?thesis by linarith
  qed
  ultimately have "\<bar>?V - 2 ^ ?L\<bar> < 2 ^ 53"
    using b by linarith
  then have "double_round (?V - 2 ^ ?L) = Fin (?V - 2 ^ ?L)"
    by (rule double_round_small)
  then have "js_sub (toNumber v) (js_pow2 ?L) = Fin (?V - 2 ^ ?L)"
    by (simp add: js_sub_def tn pw)
  with signed tn show ?thesis by simp
qed

theorem toSignedNumber_twos_complement_witness:
  "bits01 (bits \<lparr>bits = [1, 0, 0]\<rparr>) \<and> bits \<lparr>bits = [1, 0, 0]\<rparr> \<noteq> [] \<and>
   hd (bits \<lparr>bits = [1, 0, 0]\<rparr>) = 1 \<and> length (bits \<lparr>bits = [1, 0, 0]\<rparr>) \<le> 53 \<and>
   js_sub (toNumber \<lparr>bits = [1, 0, 0]\<rparr>) (js_pow2 (length (bits \<lparr>bits = [1, 0, 0]\<rparr>))) = Fin (- 4) \<and>
   toSignedNumber \<lparr>bits = [1, 0, 0]\<rparr> = Inr (Fin (- 4))"
proof -
  have h: "bits01 (bits \<lparr>bits = [1, 0, 0]\<rparr>)" "bits \<lparr>bits = [1, 0, 0]\<rparr> \<noteq> []"
    "hd (bits \<lparr>bits = [1, 0, 0]\<rparr>) = 1" "length (bits \<lparr>bits = [1, 0, 0]\<rparr>) \<le> 53"
    by (simp_all add: bits01_def)
  have s: "js_sub (toNumber \<lparr>bits = [1, 0, 0]\<rparr>) (js_pow2 (length (bits \<lparr>bits = [1, 0, 0]\<rparr>)))
      = Fin (- 4)"
    by code_simp
  from toSignedNumber_twos_complement [OF h]
  have "toSignedNumber \<lparr>bits = [1, 0, 0]\<rparr>
      = Inr (js_sub (toNumber \<lparr>bits = [1, 0, 0]\<rparr>) (js_pow2 (length (bits \<lparr>bits = [1, 0, 0]\<rparr>))))"
    by blast
  then have "toSignedNumber \<lparr>bits = [1, 0, 0]\<rparr> = Inr (Fin (- 4))"
    by (simp only: s)
  with h s show ?thesis by blast
qed

text \<open>Claim C6. For every Binary \<open>a\<close> and every integer \<open>w\<close> greater than the width
  of \<open>a\<close>, \<^verbatim>\<open>a.zeroExtend(w)\<close> returns a Binary of width \<open>w\<close> with the unsigned value
  of \<open>a\<close>: \<^verbatim>\<open>toNumber\<close> performs the same additions on both. (The elements of \<open>a\<close> need
  not even be 0 or 1.)\<close>

theorem zeroExtend_preserves_value:
  "int (length (bits a)) < w \<Longrightarrow>
   \<exists>r. zeroExtend a w = Inr r \<and> int (length (bits r)) = w \<and> toNumber r = toNumber a"
proof -
  assume w: "int (length (bits a)) < w"
  let ?r = "\<lparr>bits = replicate (nat (w - int (length (bits a)))) 0 @ bits a\<rparr>"
  have "zeroExtend a w = Inr ?r"
    using w by (simp add: zeroExtend_def)
  moreover have "int (length (bits ?r)) = w"
    using w by simp
  moreover have "toNumber ?r = toNumber \<lparr>bits = bits a\<rparr>"
    by (rule toNumber_zeros_append)
  then have "toNumber ?r = toNumber a"
    by (simp only: toNumber_bits)
  ultimately show ?thesis by blast
qed

theorem zeroExtend_preserves_value_witness:
  "int (length (bits \<lparr>bits = [1, 0, 1]\<rparr>)) < 5 \<and>
   zeroExtend \<lparr>bits = [1, 0, 1]\<rparr> 5 = Inr \<lparr>bits = [0, 0, 1, 0, 1]\<rparr> \<and>
   toNumber \<lparr>bits = [0, 0, 1, 0, 1]\<rparr> = toNumber \<lparr>bits = [1, 0, 1]\<rparr>"
proof -
  have e: "zeroExtend \<lparr>bits = [1, 0, 1]\<rparr> 5 = Inr \<lparr>bits = [0, 0, 1, 0, 1]\<rparr>"
    by code_simp
  from zeroExtend_preserves_value [of "\<lparr>bits = [1, 0, 1]\<rparr>" 5] e show ?thesis
    by simp
qed

subsection \<open>Width where the logarithm is exact; failures\<close>

lemma fromUnsigned_minimal_width_below_2p48:
  assumes n: "0 < n" "n < 2 ^ 48"
  shows "\<exists>b. fromUnsigned (of_int n) = Inr b \<and>
          int (length (bits b)) = \<lfloor>log 2 (real_of_int n)\<rfloor> + 1 \<and>
          hd (bits b) = 1 \<and> bits01 (bits b) \<and> toNumber b = Fin n \<and>
          (\<forall>v. bits01 (bits v) \<and> msbValue (bits v) = n \<longrightarrow> length (bits b) \<le> length (bits v)) \<and>
          (\<forall>v. bits01 (bits v) \<and> msbValue (bits v) = n \<and> length (bits v) = length (bits b)
               \<longrightarrow> v = b)"
proof -
  have "(2::int) ^ 48 < 2 ^ 53" by simp
  with n have "\<bar>n\<bar> < 2 ^ 53" by linarith
  then have dbl: "isDouble n" by (rule isDouble_small)
  from fromUnsigned_pos [OF n(1) dbl] Math_floor_log2_small [OF n]
  obtain ds where ds: "fromUnsigned (of_int n) = Inr \<lparr>bits = ds\<rparr>"
    "length ds = nat (bitlen n - 1 + 1)" "bits01 ds" "msbValue ds = n"
    "toNumber \<lparr>bits = ds\<rparr> = Fin n"
    by auto
  have nz: "bitlen n \<noteq> 0" using n(1) by (simp add: bitlen_eq_zero_iff)
  with bitlen_nonneg [of n] have ge: "1 \<le> bitlen n" by simp
  define j where "j = nat (bitlen n - 1)"
  have len: "length ds = Suc j" using ds(2) ge by (simp add: j_def)
  have low: "2 ^ j \<le> n"
    using bitlen_bounds [OF n(1)] by (simp add: j_def)
  have width: "int (length ds) = \<lfloor>log 2 (real_of_int n)\<rfloor> + 1"
    using n(1) ge ds(2) by (simp add: bitlen_alt_def)
  from msb_one [OF ds(3) len low [folded ds(4)]]
  obtain rest where "ds = 1 # rest" by auto
  then have hd: "hd ds = 1" by simp
  have minimal: "length ds \<le> length (bits v)" if v: "bits01 (bits v)" "msbValue (bits v) = n" for v
  proof -
    have "n < 2 ^ length (bits v)"
      using msbValue_bounds [OF v(1)] v(2) by simp
    with low have "(2::int) ^ j < 2 ^ length (bits v)" by linarith
    then have "j < length (bits v)" by simp
    then show ?thesis using len by simp
  qed
  have unique: "v = \<lparr>bits = ds\<rparr>"
    if v: "bits01 (bits v)" "msbValue (bits v) = n" "length (bits v) = length ds" for v
  proof -
    have "bits v = ds"
      using msbValue_inj [OF v(3) v(1) ds(3)] v(2) ds(4) by simp
    then show ?thesis by simp
  qed
  show ?thesis
    using ds(1,3,5) hd minimal unique width
    by (intro exI [of _ "\<lparr>bits = ds\<rparr>"]) auto
qed

text \<open>Claim C7. On two Binaries of different widths, each of \<^verbatim>\<open>add\<close>, \<^verbatim>\<open>and\<close>,
  \<^verbatim>\<open>or\<close> and \<^verbatim>\<open>xor\<close> fails with \<open>WidthMismatch\<close>, so none returns a result.\<close>

theorem width_mismatch_fails:
  "length (bits a) \<noteq> length (bits b) \<Longrightarrow>
   add a (Instance b) = Inl WidthMismatch \<and> and_Binary a (Instance b) = Inl WidthMismatch \<and>
   or_Binary a (Instance b) = Inl WidthMismatch \<and> xor_Binary a (Instance b) = Inl WidthMismatch"
  by (auto simp: add_def and_Binary_def or_Binary_def xor_Binary_def assertIsBinary_def
      assertSameNumberOfBits_def)

theorem width_mismatch_fails_witness:
  "length (bits \<lparr>bits = [1, 0, 1]\<rparr>) \<noteq> length (bits \<lparr>bits = [1, 0]\<rparr>) \<and>
   add \<lparr>bits = [1, 0, 1]\<rparr> (Instance \<lparr>bits = [1, 0]\<rparr>) = Inl WidthMismatch \<and>
   and_Binary \<lparr>bits = [1, 0, 1]\<rparr> (Instance \<lparr>bits = [1, 0]\<rparr>) = Inl WidthMismatch \<and>
   or_Binary \<lparr>bits = [1, 0, 1]\<rparr> (Instance \<lparr>bits = [1, 0]\<rparr>) = Inl WidthMismatch \<and>
   xor_Binary \<lparr>bits = [1, 0, 1]\<rparr> (Instance \<lparr>bits = [1, 0]\<rparr>) = Inl WidthMismatch"
  using width_mismatch_fails [of "\<lparr>bits = [1, 0, 1]\<rparr>" "\<lparr>bits = [1, 0]\<rparr>"] by simp

text \<open>Claim C8. For every Binary and every target width \<open>w\<close> less than or equal to
  its width, the equal width included, \<^verbatim>\<open>zeroExtend(w)\<close> fails with \<open>InvalidWidth\<close>.\<close>

theorem zeroExtend_not_larger_fails:
  "w \<le> int (length (bits a)) \<Longrightarrow> zeroExtend a w = Inl InvalidWidth"
  by (simp add: zeroExtend_def)

theorem zeroExtend_not_larger_fails_witness:
  "3 \<le> int (length (bits \<lparr>bits = [1, 0, 1]\<rparr>)) \<and>
   zeroExtend \<lparr>bits = [1, 0, 1]\<rparr> 3 = Inl InvalidWidth"
  using zeroExtend_not_larger_fails [of 3 "\<lparr>bits = [1, 0, 1]\<rparr>"] by simp

text \<open>Claim C4, as stated, fails on the code: \<^verbatim>\<open>fromUnsigned\<close> tests only
  \<^verbatim>\<open>Number.isInteger\<close>. At the negative integer \<open>-5\<close>, \<^verbatim>\<open>Math.log2\<close> gives
  \<^verbatim>\<open>NaN\<close>, the loop body never runs, and a Binary with no bits is returned.\<close>

theorem fromUnsigned_negative_counterexample:
  "isInteger (- 5) \<and> (- 5 :: rat) < 0 \<and> fromUnsigned (- 5) = Inr \<lparr>bits = []\<rparr>"
  by (simp add: fromUnsigned_def isInteger_def Math_floor_log2_def)

text \<open>Claim C4, amended. \<^verbatim>\<open>fromUnsigned(n)\<close> fails with \<open>InvalidInput\<close> whenever
  \<open>n\<close> is not an integer; no Binary is returned then.\<close>

theorem fromUnsigned_non_integer_fails:
  "\<not> isInteger n \<Longrightarrow> fromUnsigned n = Inl InvalidInput"
  by (simp add: fromUnsigned_def)

theorem fromUnsigned_non_integer_fails_witness:
  "\<not> isInteger (1 / 2) \<and> fromUnsigned (1 / 2) = Inl InvalidInput"
proof -
  have h: "\<not> isInteger (1 / 2)"
    by code_simp
  from fromUnsigned_non_integer_fails [OF h] h show ?thesis
    by simp
qed

subsection \<open>The store: what a call leaves unchanged\<close>

lemma prefix_nth: "prefix xs ys \<Longrightarrow> i < length xs \<Longrightarrow> ys ! i = xs ! i"
  by (auto simp: prefix_def nth_append)

lemma frame_refl: "frame h h"
  by (simp add: frame_def)

lemma frame_trans: "frame h1 h2 \<Longrightarrow> frame h2 h3 \<Longrightarrow> frame h1 h3"
  by (auto simp: frame_def)

text \<open>The frame is not empty talk: \<^verbatim>\<open>Array.prototype.reverse\<close> applied to an object's own
  array, without the copy that \<^verbatim>\<open>reverse\<close> makes first, falls outside it.\<close>

lemma reverse_without_copy_not_framed:
  "\<not> frame example_heap (set_array 0 (rev (array_at example_heap 0)) example_heap)"
  by (simp add: frame_def set_array_def array_at_def example_heap_def)

lemma frame_bits_of:
  assumes "frame h h'" "wf_heap h" "obj < length (objects h)"
  shows "bits_of h' obj = bits_of h obj"
proof -
  from assms(1) have p: "prefix (arrays h) (arrays h')" "prefix (objects h) (objects h')"
    by (simp_all add: frame_def)
  have o: "objects h' ! obj = objects h ! obj"
    by (rule prefix_nth [OF p(2) assms(3)])
  have "objects h ! obj < length (arrays h)"
    using assms(2,3) by (simp add: wf_heap_def)
  from prefix_nth [OF p(1) this] o show ?thesis
    by (simp add: bits_of_def array_at_def bits_ref_def)
qed

lemma reverse_h_eq:
  "reverse_h a h = (length (arrays h), h\<lparr>arrays := arrays h @ [rev (arrays h ! a)]\<rparr>)"
  by (simp add: reverse_h_def new_array_def set_array_def array_at_def)

lemma combineMap_h_eq:
  "combineMap_h a1 a2 fn s h =
     ((length (arrays h), snd (combineMap (arrays h ! a1) (arrays h ! a2) fn s)),
      h\<lparr>arrays := arrays h @ [fst (combineMap (arrays h ! a1) (arrays h ! a2) fn s)]\<rparr>)"
  by (simp add: combineMap_h_def new_array_def array_at_def split_beta)

lemma frame_new_array: "frame h1 h \<Longrightarrow> frame h1 (snd (new_array xs h))"
  by (auto simp: frame_def new_array_def)

lemma frame_new_Binary: "frame h1 h \<Longrightarrow> frame h1 (snd (new_Binary a h))"
  by (auto simp: frame_def new_Binary_def)

lemma frame_reverse_h: "frame h1 h \<Longrightarrow> frame h1 (snd (reverse_h a h))"
  by (auto simp: frame_def reverse_h_eq)

lemma frame_combineMap_h: "frame h1 h \<Longrightarrow> frame h1 (snd (combineMap_h a1 a2 fn s h))"
  by (auto simp: frame_def combineMap_h_eq)

lemmas frame_steps = frame_refl frame_new_array frame_new_Binary frame_reverse_h frame_combineMap_h

lemma frame_add_h: "frame h1 h \<Longrightarrow> frame h1 (snd (add_h this other h))"
  by (simp add: add_h_def split_beta frame_steps assertIsBinary_h_def
      split: sum.splits jsref.splits)

lemma frame_bitwise_h: "frame h1 h \<Longrightarrow> frame h1 (snd (bitwise_h fn this other h))"
  by (simp add: bitwise_h_def split_beta frame_steps split: sum.splits jsref.splits)

lemma frame_not_h: "frame h1 h \<Longrightarrow> frame h1 (snd (not_h this h))"
  by (simp add: not_h_def split_beta frame_steps)

lemma frame_zeroExtend_h: "frame h1 h \<Longrightarrow> frame h1 (snd (zeroExtend_h this w h))"
  by (simp add: zeroExtend_h_def split_beta frame_steps Let_def)

lemma frame_zeroExtendToMatch_h:
  "frame h1 h \<Longrightarrow> frame h1 (snd (zeroExtendToMatch_h this other h))"
  by (simp add: zeroExtendToMatch_h_def frame_zeroExtend_h split: sum.splits)

lemma frame_toNumber_h: "frame h1 h \<Longrightarrow> frame h1 (snd (toNumber_h this h))"
  by (simp add: toNumber_h_def)

lemma frame_toSignedNumber_h: "frame h1 h \<Longrightarrow> frame h1 (snd (toSignedNumber_h this h))"
proof -
  assume f: "frame h1 h"
  have "frame h1 (snd (case add_h this other h2 of
                 (Inl e, h3) \<Rightarrow> (Inl e, h3)
               | (Inr s, h3) \<Rightarrow>
                  (let (positiveWithCarry, h4) = not_h s h3;
                       (sliced, h5) = new_array (tl (bits_of h4 positiveWithCarry)) h4;
                       (positiveNumber, h6) = new_Binary sliced h5;
                       (n, h7) = toNumber_h positiveNumber h6
                   in (Inr (js_neg n), h7))))" if "frame h1 h2" for other h2
  proof (cases "add_h this other h2")
    case (Pair res h3)
    then have "frame h1 h3"
      using frame_add_h [OF that, of this other] by simp
    then show ?thesis
      using Pair
      by (cases res)
        (simp_all add: split_beta frame_toNumber_h frame_new_Binary frame_new_array frame_not_h)
  qed
  with f show ?thesis
    by (simp add: toSignedNumber_h_def split_beta Let_def frame_toNumber_h frame_new_Binary
        frame_new_array)
qed

subsection \<open>The store-level methods compute what the methods on values compute\<close>

lemma valid_ref: "wf_heap h \<Longrightarrow> obj < length (objects h) \<Longrightarrow> objects h ! obj < length (arrays h)"
  by (simp add: wf_heap_def)

lemma add_h_refines:
  assumes "wf_heap h" "this < length (objects h)" "b < length (objects h)"
  shows "map_sum id (bits_of (snd (add_h this (Object b) h))) (fst (add_h this (Object b) h))
           = map_sum id bits (add \<lparr>bits = bits_of h this\<rparr> (Instance \<lparr>bits = bits_of h b\<rparr>))"
  using valid_ref [OF assms(1,2)] valid_ref [OF assms(1,3)]
  by (simp add: add_h_def add_def assertIsBinary_h_def assertIsBinary_def
      assertSameNumberOfBits_h_def assertSameNumberOfBits_def reverse_h_eq combineMap_h_eq
      new_array_def new_Binary_def bits_of_def bits_ref_def array_at_def reverse_def
      split_beta nth_append)

lemma bitwise_h_refines:
  assumes "wf_heap h" "this < length (objects h)" "b < length (objects h)"
  shows "map_sum id (bits_of (snd (bitwise_h fn this (Object b) h))) (fst (bitwise_h fn this (Object b) h))
           = (case assertSameNumberOfBits \<lparr>bits = bits_of h this\<rparr> \<lparr>bits = bits_of h b\<rparr> of
                Inl e \<Rightarrow> Inl e
              | Inr _ \<Rightarrow> Inr (fst (combineMap (bits_of h this) (bits_of h b) fn ())))"
  using valid_ref [OF assms(1,2)] valid_ref [OF assms(1,3)]
  by (simp add: bitwise_h_def assertIsBinary_h_def
      assertSameNumberOfBits_h_def assertSameNumberOfBits_def combineMap_h_eq
      new_array_def new_Binary_def bits_of_def bits_ref_def array_at_def
      split_beta nth_append)

lemma and_h_refines:
  assumes "wf_heap h" "this < length (objects h)" "b < length (objects h)"
  shows "map_sum id (bits_of (snd (and_h this (Object b) h))) (fst (and_h this (Object b) h))
           = map_sum id bits (and_Binary \<lparr>bits = bits_of h this\<rparr> (Instance \<lparr>bits = bits_of h b\<rparr>))"
  unfolding and_h_def bitwise_h_refines [OF assms]
  by (simp add: and_Binary_def assertIsBinary_def split: sum.splits)

lemma or_h_refines:
  assumes "wf_heap h" "this < length (objects h)" "b < length (objects h)"
  shows "map_sum id (bits_of (snd (or_h this (Object b) h))) (fst (or_h this (Object b) h))
           = map_sum id bits (or_Binary \<lparr>bits = bits_of h this\<rparr> (Instance \<lparr>bits = bits_of h b\<rparr>))"
  unfolding or_h_def bitwise_h_refines [OF assms]
  by (simp add: or_Binary_def assertIsBinary_def split: sum.splits)

lemma xor_h_refines:
  assumes "wf_heap h" "this < length (objects h)" "b < length (objects h)"
  shows "map_sum id (bits_of (snd (xor_h this (Object b) h))) (fst (xor_h this (Object b) h))
           = map_sum id bits (xor_Binary \<lparr>bits = bits_of h this\<rparr> (Instance \<lparr>bits = bits_of h b\<rparr>))"
  unfolding xor_h_def bitwise_h_refines [OF assms]
  by (simp add: xor_Binary_def assertIsBinary_def split: sum.splits)

lemma not_h_refines:
  assumes "wf_heap h" "this < length (objects h)"
  shows "bits_of (snd (not_h this h)) (fst (not_h this h)) = bits (not_Binary \<lparr>bits = bits_of h this\<rparr>)"
  using valid_ref [OF assms]
  by (simp add: not_h_def not_Binary_def new_array_def new_Binary_def bits_of_def bits_ref_def
      array_at_def split_beta nth_append)

lemma zeroExtend_h_refines:
  assumes "wf_heap h" "this < length (objects h)"
  shows "map_sum id (bits_of (snd (zeroExtend_h this w h))) (fst (zeroExtend_h this w h))
           = map_sum id bits (zeroExtend \<lparr>bits = bits_of h this\<rparr> w)"
  using valid_ref [OF assms] assms(2)
  by (simp add: zeroExtend_h_def zeroExtend_def new_array_def new_Binary_def bits_of_def
      bits_ref_def array_at_def split_beta nth_append Let_def)

lemma zeroExtendToMatch_h_refines:
  assumes "wf_heap h" "this < length (objects h)" "b < length (objects h)"
  shows "map_sum id (bits_of (snd (zeroExtendToMatch_h this (Object b) h)))
             (fst (zeroExtendToMatch_h this (Object b) h))
           = map_sum id bits (zeroExtendToMatch \<lparr>bits = bits_of h this\<rparr> (Instance \<lparr>bits = bits_of h b\<rparr>))"
  using zeroExtend_h_refines [OF assms(1,2)]
  by (simp add: zeroExtendToMatch_h_def zeroExtendToMatch_def assertIsBinary_h_def
      assertIsBinary_def)

lemma toNumber_h_refines: "fst (toNumber_h this h) = toNumber \<lparr>bits = bits_of h this\<rparr>"
  by (simp add: toNumber_h_def)

lemma wf_new_array: "wf_heap h \<Longrightarrow> wf_heap (snd (new_array xs h))"
  by (auto simp: wf_heap_def new_array_def)

lemma wf_reverse_h: "wf_heap h \<Longrightarrow> wf_heap (snd (reverse_h a h))"
  by (auto simp: wf_heap_def reverse_h_eq)

lemma wf_combineMap_h: "wf_heap h \<Longrightarrow> wf_heap (snd (combineMap_h a1 a2 fn s h))"
  by (auto simp: wf_heap_def combineMap_h_eq)

lemma wf_new_Binary: "wf_heap h \<Longrightarrow> a < length (arrays h) \<Longrightarrow> wf_heap (snd (new_Binary a h))"
  by (auto simp: wf_heap_def new_Binary_def)

lemma add_h_new:
  "wf_heap h \<Longrightarrow> wf_heap (snd (add_h this other h)) \<and> returns_new h (add_h this other h)"
  by (auto simp: add_h_def returns_new_def assertIsBinary_h_def wf_heap_def reverse_h_eq
      combineMap_h_eq new_array_def new_Binary_def bits_ref_def split_beta
      split: sum.splits jsref.splits)

lemma bitwise_h_new:
  "wf_heap h \<Longrightarrow> wf_heap (snd (bitwise_h fn this other h)) \<and> returns_new h (bitwise_h fn this other h)"
  by (auto simp: bitwise_h_def returns_new_def assertIsBinary_h_def wf_heap_def
      combineMap_h_eq new_array_def new_Binary_def bits_ref_def split_beta
      split: sum.splits jsref.splits)

lemma not_h_new:
  "wf_heap h \<Longrightarrow> wf_heap (snd (not_h this h)) \<and> returns_new h (Inr (fst (not_h this h)), snd (not_h this h))"
  by (auto simp: not_h_def returns_new_def wf_heap_def new_array_def new_Binary_def
      bits_ref_def split_beta)

lemma zeroExtend_h_new:
  "wf_heap h \<Longrightarrow> wf_heap (snd (zeroExtend_h this w h)) \<and> returns_new h (zeroExtend_h this w h)"
  by (auto simp: zeroExtend_h_def returns_new_def wf_heap_def new_array_def new_Binary_def
      bits_ref_def split_beta Let_def)

lemma zeroExtendToMatch_h_new:
  "wf_heap h \<Longrightarrow> wf_heap (snd (zeroExtendToMatch_h this other h)) \<and>
     returns_new h (zeroExtendToMatch_h this other h)"
proof (cases other)
  case (Object b)
  assume "wf_heap h"
  from zeroExtend_h_new [OF this] Object show ?thesis
    by (simp add: zeroExtendToMatch_h_def assertIsBinary_h_def)
next
  case NotObject
  assume "wf_heap h"
  with NotObject show ?thesis
    by (simp add: zeroExtendToMatch_h_def assertIsBinary_h_def returns_new_def)
qed

lemma toSignedNumber_h_refines:
  assumes wf: "wf_heap h" and obj: "this < length (objects h)"
  shows "fst (toSignedNumber_h this h) = toSignedNumber \<lparr>bits = bits_of h this\<rparr>"
proof (cases "case bits_of h this of [] \<Rightarrow> False | b # _ \<Rightarrow> b = 0")
  case True
  then show ?thesis
    by (simp add: toSignedNumber_h_def toSignedNumber_def toNumber_h_def)
next
  case False
  let ?L = "length (bits_of h this)"
  let ?h2 = "h\<lparr>arrays := arrays h @ [replicate ?L 1], objects := objects h @ [length (arrays h)]\<rparr>"
  let ?m = "length (objects h)"
  have ref: "objects h ! this < length (arrays h)"
    by (rule valid_ref [OF wf obj])
  have wf2: "wf_heap ?h2"
    using wf by (auto simp: wf_heap_def)
  have v2: "this < length (objects ?h2)" "?m < length (objects ?h2)"
    using obj by simp_all
  have b2: "bits_of ?h2 this = bits_of h this" "bits_of ?h2 ?m = replicate ?L 1"
    using ref obj by (simp_all add: bits_of_def bits_ref_def array_at_def nth_append)
  obtain res h3 where a: "add_h this (Object ?m) ?h2 = (res, h3)"
    by fastforce
  from add_h_refines [OF wf2 v2] a b2
  have r: "map_sum id (bits_of h3) res
      = map_sum id bits (add \<lparr>bits = bits_of h this\<rparr> (Instance \<lparr>bits = replicate ?L 1\<rparr>))"
    by simp
  from add_h_new [OF wf2, of this "Object ?m"] a
  have n3: "wf_heap h3" "returns_new ?h2 (res, h3)"
    by simp_all
  have unf: "toSignedNumber_h this h =
      (case (res, h3) of
         (Inl e, h3) \<Rightarrow> (Inl e, h3)
       | (Inr s, h3) \<Rightarrow>
          (let (positiveWithCarry, h4) = not_h s h3;
               (sliced, h5) = new_array (tl (bits_of h4 positiveWithCarry)) h4;
               (positiveNumber, h6) = new_Binary sliced h5;
               (n, h7) = toNumber_h positiveNumber h6
           in (Inr (js_neg n), h7)))"
    using False a by (simp add: toSignedNumber_h_def new_array_def new_Binary_def)
  show ?thesis
  proof (cases res)
    case (Inl e)
    with r unf False show ?thesis
      by (cases "add \<lparr>bits = bits_of h this\<rparr> (Instance \<lparr>bits = replicate ?L 1\<rparr>)")
        (simp_all add: toSignedNumber_def)
  next
    case (Inr s)
    with n3(2) have s: "s < length (objects h3)"
      by (simp add: returns_new_def)
    from r Inr obtain sb where sb: "add \<lparr>bits = bits_of h this\<rparr> (Instance \<lparr>bits = replicate ?L 1\<rparr>) = Inr sb"
      "bits sb = bits_of h3 s"
      by (cases "add \<lparr>bits = bits_of h this\<rparr> (Instance \<lparr>bits = replicate ?L 1\<rparr>)") auto
    have nb: "bits_of (snd (not_h s h3)) (fst (not_h s h3)) = map (\<lambda>x. if x = 0 then 1 else 0) (bits sb)"
      using not_h_refines [OF n3(1) s] sb(2) by (simp add: not_Binary_def)
    have "fst (toSignedNumber_h this h) =
        Inr (js_neg (toNumber \<lparr>bits = tl (bits_of (snd (not_h s h3)) (fst (not_h s h3)))\<rparr>))"
      unfolding unf Inr
      by (simp add: split_beta toNumber_h_def new_array_def new_Binary_def bits_of_def
          bits_ref_def array_at_def)
    also have "\<dots> = toSignedNumber \<lparr>bits = bits_of h this\<rparr>"
      using False sb(1) by (simp add: toSignedNumber_def nb not_Binary_def)
    finally show ?thesis .
  qed
qed

subsection \<open>No operation mutates\<close>

text \<open>Claim C9. Every operation (\<^verbatim>\<open>add\<close>, \<^verbatim>\<open>and\<close>, \<^verbatim>\<open>or\<close>, \<^verbatim>\<open>xor\<close>, \<^verbatim>\<open>not\<close>,
  \<^verbatim>\<open>zeroExtend\<close>, \<^verbatim>\<open>zeroExtendToMatch\<close>, \<^verbatim>\<open>toNumber\<close>, \<^verbatim>\<open>toSignedNumber\<close>) leaves
  the bit sequence of its receiver and of its Binary argument unchanged (indeed every array
  and object that existed before the call, also when receiver and argument are the same
  object or share an array), and an operation that returns a Binary returns a new object
  with a new array.\<close>

theorem operations_do_not_mutate:
  assumes "wf_heap h" "this < length (objects h)" "other < length (objects h)"
  shows "(\<forall>h' \<in> set [snd (add_h this (Object other) h), snd (and_h this (Object other) h),
                      snd (or_h this (Object other) h), snd (xor_h this (Object other) h),
                      snd (not_h this h), snd (zeroExtend_h this w h),
                      snd (zeroExtendToMatch_h this (Object other) h),
                      snd (toNumber_h this h), snd (toSignedNumber_h this h)].
            frame h h' \<and> bits_of h' this = bits_of h this \<and> bits_of h' other = bits_of h other) \<and>
         (\<forall>r \<in> set [add_h this (Object other) h, and_h this (Object other) h,
                     or_h this (Object other) h, xor_h this (Object other) h,
                     (Inr (fst (not_h this h)), snd (not_h this h)), zeroExtend_h this w h,
                     zeroExtendToMatch_h this (Object other) h].
            returns_new h r)"
proof -
  have keep: "frame h h' \<and> bits_of h' this = bits_of h this \<and> bits_of h' other = bits_of h other"
    if "frame h h'" for h'
    using that frame_bits_of [OF that assms(1,2)] frame_bits_of [OF that assms(1,3)] by simp
  have f: "frame h h" by (rule frame_refl)
  have frames:
    "frame h (snd (add_h this (Object other) h))" "frame h (snd (and_h this (Object other) h))"
    "frame h (snd (or_h this (Object other) h))" "frame h (snd (xor_h this (Object other) h))"
    "frame h (snd (not_h this h))" "frame h (snd (zeroExtend_h this w h))"
    "frame h (snd (zeroExtendToMatch_h this (Object other) h))"
    "frame h (snd (toNumber_h this h))" "frame h (snd (toSignedNumber_h this h))"
    unfolding and_h_def or_h_def xor_h_def
    by (rule frame_add_h [OF f] frame_bitwise_h [OF f] frame_not_h [OF f] frame_zeroExtend_h [OF f]
        frame_zeroExtendToMatch_h [OF f] frame_toNumber_h [OF f] frame_toSignedNumber_h [OF f])+
  have new:
    "returns_new h (add_h this (Object other) h)" "returns_new h (and_h this (Object other) h)"
    "returns_new h (or_h this (Object other) h)" "returns_new h (xor_h this (Object other) h)"
    "returns_new h (Inr (fst (not_h this h)), snd (not_h this h))"
    "returns_new h (zeroExtend_h this w h)"
    "returns_new h (zeroExtendToMatch_h this (Object other) h)"
    unfolding and_h_def or_h_def xor_h_def
    using add_h_new [OF assms(1)] bitwise_h_new [OF assms(1)] not_h_new [OF assms(1)]
      zeroExtend_h_new [OF assms(1)] zeroExtendToMatch_h_new [OF assms(1)]
    by simp_all
  show ?thesis
    using frames [THEN keep] new by simp
qed

theorem operations_do_not_mutate_witness:
  "wf_heap example_heap \<and> 0 < length (objects example_heap) \<and> 1 < length (objects example_heap) \<and>
   bits_of example_heap 0 = [1, 0, 1, 1] \<and> bits_of example_heap 1 = [0, 1, 0, 1] \<and>
   fst (add_h 0 (Object 1) example_heap) = Inr 2 \<and>
   bits_of (snd (add_h 0 (Object 1) example_heap)) 2 = [1, 0, 0, 0, 0] \<and>
   bits_of (snd (add_h 0 (Object 1) example_heap)) 0 = [1, 0, 1, 1] \<and>
   bits_of (snd (add_h 0 (Object 1) example_heap)) 1 = [0, 1, 0, 1] \<and>
   bits_of (snd (toSignedNumber_h 0 example_heap)) 0 = [1, 0, 1, 1]"
proof -
  have h: "wf_heap example_heap" "0 < length (objects example_heap)"
    "1 < length (objects example_heap)"
    by (simp_all add: wf_heap_def example_heap_def)
  have e: "bits_of example_heap 0 = [1, 0, 1, 1]" "bits_of example_heap 1 = [0, 1, 0, 1]"
    by (simp_all add: bits_of_def bits_ref_def array_at_def example_heap_def)
  have r: "fst (add_h 0 (Object 1) example_heap) = Inr 2"
    "bits_of (snd (add_h 0 (Object 1) example_heap)) 2 = [1, 0, 0, 0, 0]"
    by code_simp+
  from operations_do_not_mutate [OF h, of 6] h e r show ?thesis
    by simp
qed

end
